theory Spec2Isabelle
  imports Main "HOL-Library.Word" "HOL-Library.AList" "HOL-Library.Sublist"
    "HOL-Library.Multiset"
begin

unbundle bit_operations_syntax

section \<open>Values shared by all modules\<close>

text \<open>
  A Python \<open>bytes\<close> or \<open>bytearray\<close> object is a list of 8-bit words.  Python's
  unbounded, here never negative, integers (positions, offsets, lengths, weights) are
  natural numbers.  An exception raised by the interpreter is a value of \<open>py_error\<close>, and
  a function that can raise returns \<open>py_error + 'a\<close>.
\<close>

type_synonym byte = "8 word"

datatype py_error = IndexError | TypeError | ValueError | KeyError | OverflowError | StructError

text \<open>\<open>xs[i]\<close> for a non-negative index: Python raises IndexError out of range.\<close>

definition index :: "'a list \<Rightarrow> nat \<Rightarrow> py_error + 'a" where
  "index xs i = (if i < length xs then Inr (xs ! i) else Inl IndexError)"

text \<open>
  \<open>xs[-k]\<close> for \<open>k \<ge> 0\<close>: for \<open>k = 0\<close> this is \<open>xs[0]\<close>, otherwise the \<open>k\<close>-th
  element from the end; IndexError when there is no such element.
\<close>

definition neg_index :: "'a list \<Rightarrow> nat \<Rightarrow> py_error + 'a" where
  "neg_index xs k =
     (if k = 0 then index xs 0
      else if k \<le> length xs then Inr (xs ! (length xs - k))
      else Inl IndexError)"

text \<open>
  Appending an integer to a \<open>bytearray\<close> (or building \<open>bytes\<close> from integers) raises
  ValueError unless the integer is in \<open>range(256)\<close>.
\<close>

definition to_byte :: "nat \<Rightarrow> py_error + byte" where
  "to_byte n = (if n < 256 then Inr (of_nat n) else Inl ValueError)"

section \<open>lz77.py\<close>

subsection \<open>find_longest_match\<close>

text \<open>
  The inner \<open>while\<close> loop of \<open>find_longest_match\<close> for one window start \<open>i\<close>.  The
  index \<open>i + match_length\<close> is below \<open>current_pos + match_length\<close> (the loop is only
  entered for \<open>i < current_pos\<close>), which the first conjunct bounds by
  \<open>end_of_buffer \<le> len(data)\<close>, so neither read can raise.
\<close>

function match_run :: "byte list \<Rightarrow> nat \<Rightarrow> nat \<Rightarrow> nat \<Rightarrow> nat \<Rightarrow> nat" where
  "match_run data i current_pos end_of_buffer match_length =
     (if current_pos + match_length < end_of_buffer \<and>
         data ! (i + match_length) = data ! (current_pos + match_length)
      then (if i + (match_length + 1) \<ge> current_pos then match_length + 1
            else match_run data i current_pos end_of_buffer (match_length + 1))
      else match_length)"
  by pat_completeness auto
termination
  by (relation "measure (\<lambda>(data, i, current_pos, end_of_buffer, match_length).
        end_of_buffer - (current_pos + match_length))") auto

declare match_run.simps [simp del]

text \<open>One iteration of the \<open>for i in range(...)\<close> loop; the state is
  \<open>(best_match_length, best_match_offset)\<close>.\<close>

definition scan_step :: "byte list \<Rightarrow> nat \<Rightarrow> nat \<Rightarrow> nat \<times> nat \<Rightarrow> nat \<Rightarrow> nat \<times> nat" where
  "scan_step data current_pos end_of_buffer best i =
     (let match_length = match_run data i current_pos end_of_buffer 0
      in if match_length > fst best then (match_length, current_pos - i) else best)"

text \<open>
  \<open>max(0, current_pos - window_size)\<close> is the truncating subtraction of \<open>nat\<close>.  The
  result is \<open>(offset, length, next_char)\<close>, with \<open>None\<close> for Python's \<open>None\<close>.
\<close>

definition find_longest_match ::
  "byte list \<Rightarrow> nat \<Rightarrow> nat \<Rightarrow> nat \<Rightarrow> nat \<times> nat \<times> byte option" where
  "find_longest_match data current_pos window_size lookahead_buffer_size =
     (let end_of_buffer = min (current_pos + lookahead_buffer_size) (length data) in
      if current_pos \<ge> length data then (0, 0, None)
      else
        let next_char = (if end_of_buffer = length data then None
                         else Some (data ! end_of_buffer)) in
        if current_pos \<ge> end_of_buffer then (0, 0, next_char)
        else
          let best = foldl (scan_step data current_pos end_of_buffer) (0, 0)
                       [max 0 (current_pos - window_size) ..< current_pos]
          in (snd best, fst best,
              if current_pos + fst best < length data
              then Some (data ! (current_pos + fst best)) else None))"

subsection \<open>Variable-length integers\<close>

text \<open>One field of \<open>variable_length_encode\<close>: the source runs this code once for the
  offset and once for the length.\<close>

definition encode_field :: "nat \<Rightarrow> py_error + byte list" where
  "encode_field v =
     (if v < 128 then
        (case to_byte v of Inl e \<Rightarrow> Inl e | Inr b \<Rightarrow> Inr [b])
      else
        (case to_byte (drop_bit 8 v OR 128) of Inl e \<Rightarrow> Inl e
         | Inr hi \<Rightarrow>
            (case to_byte (v AND 255) of Inl e \<Rightarrow> Inl e
             | Inr lo \<Rightarrow> Inr [hi, lo])))"

definition variable_length_encode :: "nat \<Rightarrow> nat \<Rightarrow> py_error + byte list" where
  "variable_length_encode offset len =
     (case encode_field offset of Inl e \<Rightarrow> Inl e
      | Inr r1 \<Rightarrow>
         (case encode_field len of Inl e \<Rightarrow> Inl e
          | Inr r2 \<Rightarrow> Inr (r1 @ r2)))"

text \<open>One field of \<open>variable_length_decode\<close>: the decoded value and the new position.\<close>

definition decode_field :: "byte list \<Rightarrow> nat \<Rightarrow> py_error + (nat \<times> nat)" where
  "decode_field data pos =
     (case index data pos of Inl e \<Rightarrow> Inl e
      | Inr b \<Rightarrow>
         if unat b < 128 then Inr (unat b, pos + 1)
         else
           (case index data (pos + 1) of Inl e \<Rightarrow> Inl e
            | Inr b2 \<Rightarrow> Inr (push_bit 8 (unat b AND 127) OR unat b2, pos + 2)))"

definition variable_length_decode :: "byte list \<Rightarrow> nat \<Rightarrow> py_error + (nat \<times> nat \<times> nat)" where
  "variable_length_decode data pos =
     (case decode_field data pos of Inl e \<Rightarrow> Inl e
      | Inr (offset, pos1) \<Rightarrow>
         (case decode_field data pos1 of Inl e \<Rightarrow> Inl e
          | Inr (len, pos2) \<Rightarrow> Inr (offset, len, pos2)))"

subsection \<open>compress_lz77\<close>

text \<open>
  The metadata dictionary of the LZ77 stage: \<open>{'compressed': False}\<close>, or the window and
  lookahead sizes with \<open>'compressed': True\<close>.
\<close>

datatype lz77_metadata = Lz77_raw | Lz77_applied nat nat

text \<open>The \<open>while current_pos < len(data)\<close> loop; \<open>result\<close> is the bytearray built so
  far.  An absent \<open>next_char\<close> is written as the byte 0xFF.\<close>

function compress_loop ::
  "byte list \<Rightarrow> nat \<Rightarrow> nat \<Rightarrow> nat \<Rightarrow> byte list \<Rightarrow> py_error + byte list" where
  "compress_loop data window_size lookahead_buffer_size current_pos result =
     (if current_pos < length data then
        (case find_longest_match data current_pos window_size lookahead_buffer_size of
           (offset, len, next_char) \<Rightarrow>
             (case variable_length_encode offset len of Inl e \<Rightarrow> Inl e
              | Inr enc \<Rightarrow>
                  compress_loop data window_size lookahead_buffer_size
                    (current_pos + len + 1)
                    (result @ enc @ [case next_char of None \<Rightarrow> 0xFF | Some c \<Rightarrow> c])))
      else Inr result)"
  by pat_completeness auto
termination
  by (relation "measure (\<lambda>(data, window_size, lookahead_buffer_size, current_pos, result).
        length data - current_pos)") auto

declare compress_loop.simps [simp del]

definition compress_lz77 ::
  "byte list \<Rightarrow> nat \<Rightarrow> nat \<Rightarrow> py_error + (byte list \<times> lz77_metadata)" where
  "compress_lz77 data window_size lookahead_buffer_size =
     (if length data < 50 then Inr (data, Lz77_raw)
      else
        (case compress_loop data window_size lookahead_buffer_size 0 [] of
           Inl e \<Rightarrow> Inl e
         | Inr result \<Rightarrow>
             if length result < length data
             then Inr (result, Lz77_applied window_size lookahead_buffer_size)
             else Inr (data, Lz77_raw)))"

subsection \<open>decompress_lz77\<close>

text \<open>\<open>for _ in range(length): result.append(result[-offset])\<close>\<close>

fun copy_back :: "byte list \<Rightarrow> nat \<Rightarrow> nat \<Rightarrow> py_error + byte list" where
  "copy_back result offset 0 = Inr result"
| "copy_back result offset (Suc n) =
     (case neg_index result offset of Inl e \<Rightarrow> Inl e
      | Inr b \<Rightarrow> copy_back (result @ [b]) offset n)"

text \<open>
  \<open>if next_char != 0xFF: result.append(next_char)\<close>, where \<open>next_char\<close> is \<open>None\<close> when
  the stream ended before the literal: \<open>None != 0xFF\<close> holds, and appending \<open>None\<close> to a
  bytearray raises TypeError.
\<close>

definition append_literal :: "byte list \<Rightarrow> byte option \<Rightarrow> py_error + byte list" where
  "append_literal result next_char =
     (if next_char \<noteq> Some 0xFF then
        (case next_char of None \<Rightarrow> Inl TypeError | Some c \<Rightarrow> Inr (result @ [c]))
      else Inr result)"

lemma variable_length_decode_advances:
  "variable_length_decode data pos = Inr (offset, len, pos') \<Longrightarrow> pos < pos'"
  by (auto simp: variable_length_decode_def decode_field_def
      split: sum.splits if_splits prod.splits)

function decompress_loop :: "byte list \<Rightarrow> nat \<Rightarrow> byte list \<Rightarrow> py_error + byte list" where
  "decompress_loop compressed_data pos result =
     (if pos < length compressed_data then
        (case variable_length_decode compressed_data pos of Inl e \<Rightarrow> Inl e
         | Inr (offset, len, pos') \<Rightarrow>
             let next_char = (if pos' < length compressed_data
                              then Some (compressed_data ! pos') else None)
             in if offset = 0 \<and> len = 0 then
                  (case append_literal result next_char of Inl e \<Rightarrow> Inl e
                   | Inr result' \<Rightarrow> decompress_loop compressed_data (pos' + 1) result')
                else
                  (case copy_back result offset len of Inl e \<Rightarrow> Inl e
                   | Inr copied \<Rightarrow>
                       (case append_literal copied next_char of Inl e \<Rightarrow> Inl e
                        | Inr result' \<Rightarrow>
                            decompress_loop compressed_data (pos' + 1) result')))
      else Inr result)"
  by pat_completeness auto
termination
  by (relation "measure (\<lambda>(compressed_data, pos, result). length compressed_data - pos)")
     (auto dest: variable_length_decode_advances)

declare decompress_loop.simps [simp del]

text \<open>\<open>metadata.get('compressed', True)\<close> is false only for \<open>{'compressed': False}\<close>.\<close>

definition decompress_lz77 :: "byte list \<Rightarrow> lz77_metadata \<Rightarrow> py_error + byte list" where
  "decompress_lz77 compressed_data metadata =
     (case metadata of
        Lz77_raw \<Rightarrow> Inr compressed_data
      | Lz77_applied window_size lookahead_buffer_size \<Rightarrow>
          decompress_loop compressed_data 0 [])"

section \<open>huffman.py\<close>

subsection \<open>Dictionaries and the frequency table\<close>

text \<open>
  A Python \<open>dict\<close> keeps its keys in insertion order, and \<open>serialize_tree\<close> writes the
  entries in that order, so a dictionary is an association list with distinct keys:
  \<open>d[k] = v\<close> is \<open>AList.update k v d\<close> (in place for a key already present, at the end
  for a new one) and \<open>d[k]\<close> is \<open>map_of d k\<close>, raising KeyError on \<open>None\<close>.

  \<open>Counter(data)\<close> counts every byte of \<open>data\<close> from left to right.
\<close>

definition count_byte :: "(byte \<times> nat) list \<Rightarrow> byte \<Rightarrow> (byte \<times> nat) list" where
  "count_byte freq b =
     AList.update b ((case map_of freq b of None \<Rightarrow> 0 | Some c \<Rightarrow> c) + 1) freq"

definition build_frequency_table :: "byte list \<Rightarrow> (byte \<times> nat) list" where
  "build_frequency_table data = foldl count_byte [] data"

subsection \<open>The heap of build_huffman_tree\<close>

text \<open>
  A heap item is the Python list \<open>[weight, [symbol, code], [symbol, code], ...]\<close>: a weight
  and the pairs after it.  Python orders lists lexicographically: the first position
  where the two lists differ decides, and a proper prefix is smaller.  A pair
  \<open>[symbol, code]\<close> is itself a list of an integer and a string, and strings are ordered
  lexicographically by code point.
\<close>

type_synonym code_pair = "byte \<times> string"
type_synonym heap_item = "nat \<times> code_pair list"

fun str_less :: "string \<Rightarrow> string \<Rightarrow> bool" where
  "str_less [] [] = False"
| "str_less [] (y # ys) = True"
| "str_less (x # xs) [] = False"
| "str_less (x # xs) (y # ys) =
     (if x = y then str_less xs ys else (of_char x :: nat) < of_char y)"

definition pair_less :: "code_pair \<Rightarrow> code_pair \<Rightarrow> bool" where
  "pair_less p q = (if fst p = fst q then str_less (snd p) (snd q) else fst p < fst q)"

fun pairs_less :: "code_pair list \<Rightarrow> code_pair list \<Rightarrow> bool" where
  "pairs_less [] [] = False"
| "pairs_less [] (y # ys) = True"
| "pairs_less (x # xs) [] = False"
| "pairs_less (x # xs) (y # ys) = (if x = y then pairs_less xs ys else pair_less x y)"

definition item_less :: "heap_item \<Rightarrow> heap_item \<Rightarrow> bool" where
  "item_less a b = (if fst a = fst b then pairs_less (snd a) (snd b) else fst a < fst b)"

text \<open>
  \<open>heapq\<close> is the standard library's binary heap, modelled by its contract: the heap is
  the list of its items, \<open>heappush\<close> adds an item and \<open>heappop\<close> removes and returns the
  smallest one (IndexError on an empty heap).  The items of this heap carry pairwise
  disjoint symbols, so two of them always differ in the weight or in the symbol of the
  first pair and the smallest item is unique: which item is popped does not depend on
  the array layout that \<open>heapify\<close> and \<open>heappush\<close> maintain.
\<close>

fun smallest :: "heap_item \<Rightarrow> heap_item list \<Rightarrow> heap_item" where
  "smallest m [] = m"
| "smallest m (x # xs) = smallest (if item_less x m then x else m) xs"

definition heappop :: "heap_item list \<Rightarrow> py_error + (heap_item \<times> heap_item list)" where
  "heappop heap =
     (case heap of [] \<Rightarrow> Inl IndexError
      | x # xs \<Rightarrow> (let m = smallest x xs in Inr (m, remove1 m heap)))"

definition heappush :: "heap_item list \<Rightarrow> heap_item \<Rightarrow> heap_item list" where
  "heappush heap item = heap @ [item]"

subsection \<open>build_huffman_tree and build_huffman_codes\<close>

text \<open>\<open>for pair in item[1:]: pair[1] = b + pair[1]\<close>, for \<open>b\<close> one of \<open>'0'\<close> and \<open>'1'\<close>.\<close>

definition prepend_bit :: "char \<Rightarrow> code_pair list \<Rightarrow> code_pair list" where
  "prepend_bit b pairs = map (\<lambda>(symbol, code). (symbol, b # code)) pairs"

lemma smallest_mem: "smallest x xs \<in> set (x # xs)"
  by (induction xs arbitrary: x) auto

lemma heappop_mem:
  "heappop heap = Inr (m, rest) \<Longrightarrow> m \<in> set heap \<and> rest = remove1 m heap"
  using smallest_mem by (cases heap) (auto simp: heappop_def Let_def simp del: remove1.simps)

lemma heappop_shorter:
  "heappop heap = Inr (m, rest) \<Longrightarrow> Suc (length rest) = length heap"
proof -
  assume "heappop heap = Inr (m, rest)"
  then have m: "m \<in> set heap" and r: "rest = remove1 m heap"
    by (simp_all add: heappop_mem)
  from m have "0 < length heap" by (cases heap) auto
  with m r show ?thesis by (simp add: length_remove1)
qed

function merge_loop :: "heap_item list \<Rightarrow> py_error + heap_item list" where
  "merge_loop heap =
     (if length heap > 1 then
        (case heappop heap of Inl e \<Rightarrow> Inl e
         | Inr (lo, heap1) \<Rightarrow>
             (case heappop heap1 of Inl e \<Rightarrow> Inl e
              | Inr (hi, heap2) \<Rightarrow>
                  merge_loop (heappush heap2
                    (fst lo + fst hi,
                     prepend_bit (CHR ''0'') (snd lo) @ prepend_bit (CHR ''1'') (snd hi)))))
      else Inr heap)"
  by pat_completeness auto
termination
  by (relation "measure length") (auto simp: heappush_def dest!: heappop_shorter)

declare merge_loop.simps [simp del]

definition build_huffman_tree :: "(byte \<times> nat) list \<Rightarrow> py_error + heap_item" where
  "build_huffman_tree freq_table =
     (let heap = map (\<lambda>(symbol, weight). (weight, [(symbol, [])])) freq_table in
      if length heap = 1 then
        (case index heap 0 of Inl e \<Rightarrow> Inl e
         | Inr first \<Rightarrow>
             (case index (snd first) 0 of Inl e \<Rightarrow> Inl e
              | Inr pair \<Rightarrow> Inr (1, [(fst pair, ''0'')])))
      else
        (case merge_loop heap of Inl e \<Rightarrow> Inl e
         | Inr heap' \<Rightarrow> index heap' 0))"

text \<open>The dictionary comprehension inserts the pairs from left to right.\<close>

definition build_huffman_codes :: "heap_item \<Rightarrow> code_pair list" where
  "build_huffman_codes huffman_tree =
     foldl (\<lambda>codes (symbol, code). AList.update symbol code codes) [] (snd huffman_tree)"

subsection \<open>serialize_tree and deserialize_tree\<close>

text \<open>
  A loop or generator whose steps can raise: the results in order, or the first
  exception.
\<close>

fun collect :: "(py_error + 'a) list \<Rightarrow> py_error + 'a list" where
  "collect [] = Inr []"
| "collect (x # xs) =
     (case x of Inl e \<Rightarrow> Inl e
      | Inr v \<Rightarrow> (case collect xs of Inl e \<Rightarrow> Inl e | Inr vs \<Rightarrow> Inr (v # vs)))"

text \<open>\<open>range(0, n, 8)\<close>\<close>

definition range8 :: "nat \<Rightarrow> nat list" where
  "range8 n = map (\<lambda>k. 8 * k) [0 ..< (n + 7) div 8]"

text \<open>\<open>n.to_bytes(2, 'little')\<close> raises OverflowError from 65536 on;
  \<open>int.from_bytes(bs, 'little')\<close> accepts any length.\<close>

definition to_bytes2 :: "nat \<Rightarrow> py_error + byte list" where
  "to_bytes2 n =
     (if n < 65536 then Inr [of_nat (n mod 256), of_nat (n div 256)] else Inl OverflowError)"

definition from_bytes_le :: "byte list \<Rightarrow> nat" where
  "from_bytes_le bs = foldr (\<lambda>b acc. unat b + 256 * acc) bs 0"

text \<open>
  \<open>sum((1 << (7-j)) * (code[i+j] == '1') for j in range(8) if i+j < len(code))\<close>
\<close>

definition byte_val :: "string \<Rightarrow> nat \<Rightarrow> nat" where
  "byte_val code i =
     sum_list (map (\<lambda>j. push_bit (7 - j) 1 * of_bool (code ! (i + j) = CHR ''1''))
                   (filter (\<lambda>j. i + j < length code) [0 ..< 8]))"

text \<open>The body of the \<open>for symbol, code in codes.items()\<close> loop: the bytes it appends.\<close>

definition serialize_entry :: "code_pair \<Rightarrow> py_error + byte list" where
  "serialize_entry entry =
     (case to_byte (length (snd entry)) of Inl e \<Rightarrow> Inl e
      | Inr code_length \<Rightarrow>
          (case collect (map (\<lambda>i. to_byte (byte_val (snd entry) i))
                             (range8 (length (snd entry)))) of
             Inl e \<Rightarrow> Inl e
           | Inr packed \<Rightarrow> Inr (fst entry # code_length # packed)))"

definition serialize_tree :: "code_pair list \<Rightarrow> py_error + byte list" where
  "serialize_tree codes =
     (case to_bytes2 (length codes) of Inl e \<Rightarrow> Inl e
      | Inr prefix_bytes \<Rightarrow>
          (case collect (map serialize_entry codes) of Inl e \<Rightarrow> Inl e
           | Inr entries \<Rightarrow> Inr (prefix_bytes @ concat entries)))"

text \<open>
  \<open>''.join('1' if data[pos + i//8] & (1 << (7 - i%8)) else '0' for i in range(code_length))\<close>
\<close>

definition read_code :: "byte list \<Rightarrow> nat \<Rightarrow> nat \<Rightarrow> py_error + string" where
  "read_code data pos code_length =
     collect (map (\<lambda>i. case index data (pos + i div 8) of Inl e \<Rightarrow> Inl e
                        | Inr b \<Rightarrow>
                            Inr (if unat b AND push_bit (7 - i mod 8) 1 \<noteq> 0
                                 then CHR ''1'' else CHR ''0''))
                  [0 ..< code_length])"

text \<open>The \<open>for _ in range(count)\<close> loop of \<open>deserialize_tree\<close>; the first argument is
  the number of iterations left.\<close>

fun deserialize_loop ::
  "nat \<Rightarrow> byte list \<Rightarrow> nat \<Rightarrow> code_pair list \<Rightarrow> py_error + code_pair list" where
  "deserialize_loop 0 data pos codes = Inr codes"
| "deserialize_loop (Suc n) data pos codes =
     (case index data pos of Inl e \<Rightarrow> Inl e
      | Inr symbol \<Rightarrow>
          (case index data (pos + 1) of Inl e \<Rightarrow> Inl e
           | Inr code_length \<Rightarrow>
               (case read_code data (pos + 2) (unat code_length) of Inl e \<Rightarrow> Inl e
                | Inr code \<Rightarrow>
                    deserialize_loop n data (pos + 2 + (unat code_length + 7) div 8)
                      (AList.update symbol code codes))))"

definition deserialize_tree :: "byte list \<Rightarrow> py_error + code_pair list" where
  "deserialize_tree data = deserialize_loop (from_bytes_le (take 2 data)) data 2 []"

subsection \<open>Bit strings and bytes\<close>

text \<open>
  \<open>int(s, 2)\<close> on a string of binary digits.  The strings that reach it here are the
  eight-character slices of a padded string of \<open>'0'\<close> and \<open>'1'\<close>; the empty string and
  any other character are a ValueError.
\<close>

definition int2 :: "string \<Rightarrow> py_error + nat" where
  "int2 s =
     (if s \<noteq> [] \<and> list_all (\<lambda>c. c = CHR ''0'' \<or> c = CHR ''1'') s
      then Inr (foldl (\<lambda>acc c. 2 * acc + of_bool (c = CHR ''1'')) 0 s)
      else Inl ValueError)"

definition efficient_binary_string_to_bytes :: "string \<Rightarrow> py_error + (byte list \<times> nat)" where
  "efficient_binary_string_to_bytes binary_string =
     (let padding = (if length binary_string mod 8 \<noteq> 0
                     then 8 - length binary_string mod 8 else 0);
          padded = binary_string @ replicate padding (CHR ''0'')
      in case collect (map (\<lambda>i. case int2 (take 8 (drop i padded)) of Inl e \<Rightarrow> Inl e
                                 | Inr v \<Rightarrow> to_byte v)
                           (range8 (length padded))) of
           Inl e \<Rightarrow> Inl e
         | Inr bs \<Rightarrow> Inr (bs, padding))"

text \<open>\<open>format(byte, '08b')\<close>: the eight bits of a byte, most significant first.\<close>

definition format_08b :: "byte \<Rightarrow> string" where
  "format_08b b = map (\<lambda>j. if bit b (7 - j) then CHR ''1'' else CHR ''0'') [0 ..< 8]"

definition efficient_bytes_to_binary_string :: "byte list \<Rightarrow> nat \<Rightarrow> string" where
  "efficient_bytes_to_binary_string data padding =
     (let result = concat (map format_08b data)
      in if padding \<noteq> 0 then take (length result - padding) result else result)"

subsection \<open>compress_huffman and decompress_huffman\<close>

text \<open>The metadata dictionary of the Huffman stage: \<open>{'compressed': False}\<close>, or the
  serialized code table and the padding with \<open>'compressed': True\<close>.\<close>

datatype huffman_metadata = Huffman_raw | Huffman_applied "byte list" nat

text \<open>\<open>''.join(codes[byte] for byte in data)\<close>; a byte without a code is a KeyError.\<close>

definition encode_symbols :: "code_pair list \<Rightarrow> byte list \<Rightarrow> py_error + string" where
  "encode_symbols codes data =
     (case collect (map (\<lambda>b. case map_of codes b of None \<Rightarrow> Inl KeyError
                               | Some code \<Rightarrow> Inr code) data) of
        Inl e \<Rightarrow> Inl e
      | Inr parts \<Rightarrow> Inr (concat parts))"

definition compress_huffman :: "byte list \<Rightarrow> py_error + (byte list \<times> huffman_metadata)" where
  "compress_huffman data =
     (if length data < 100 then Inr (data, Huffman_raw)
      else
        (case build_huffman_tree (build_frequency_table data) of Inl e \<Rightarrow> Inl e
         | Inr tree \<Rightarrow>
             let codes = build_huffman_codes tree in
             (case encode_symbols codes data of
                Inl e \<Rightarrow> Inl e
              | Inr encoded \<Rightarrow>
                  (case efficient_binary_string_to_bytes encoded of Inl e \<Rightarrow> Inl e
                   | Inr (compressed_bytes, padding) \<Rightarrow>
                       (case serialize_tree codes of Inl e \<Rightarrow> Inl e
                        | Inr tree_bytes \<Rightarrow>
                            if length compressed_bytes + length tree_bytes + 10 \<ge> length data
                            then Inr (data, Huffman_raw)
                            else Inr (compressed_bytes,
                                      Huffman_applied tree_bytes padding))))))"

text \<open>The \<open>for bit in binary_string\<close> loop; \<open>lookup\<close> maps a code to its symbol.\<close>

fun decode_bits :: "(string \<times> byte) list \<Rightarrow> string \<Rightarrow> string \<Rightarrow> byte list \<Rightarrow> byte list" where
  "decode_bits lookup [] code result = result"
| "decode_bits lookup (b # bs) code result =
     (case map_of lookup (code @ [b]) of
        Some symbol \<Rightarrow> decode_bits lookup bs [] (result @ [symbol])
      | None \<Rightarrow> decode_bits lookup bs (code @ [b]) result)"

definition decompress_huffman :: "byte list \<Rightarrow> huffman_metadata \<Rightarrow> py_error + byte list" where
  "decompress_huffman compressed_data metadata =
     (case metadata of
        Huffman_raw \<Rightarrow> Inr compressed_data
      | Huffman_applied huffman_codes padding \<Rightarrow>
          (case deserialize_tree huffman_codes of Inl e \<Rightarrow> Inl e
           | Inr codes \<Rightarrow>
               let lookup = foldl (\<lambda>m (symbol, code). AList.update code symbol m) [] codes;
                   binary_string = efficient_bytes_to_binary_string compressed_data padding
               in Inr (decode_bits lookup binary_string [] [])))"

subsection \<open>combined_compress and combined_decompress\<close>

record combined_metadata =
  lz77 :: lz77_metadata
  huffman :: huffman_metadata

text \<open>\<open>compress_lz77(data)\<close> is called with its defaults, a window of 4096 and a
  lookahead of 128 bytes.\<close>

definition combined_compress :: "byte list \<Rightarrow> py_error + (byte list \<times> combined_metadata)" where
  "combined_compress data =
     (case compress_lz77 data 4096 128 of Inl e \<Rightarrow> Inl e
      | Inr (lz77_compressed, lz77_metadata) \<Rightarrow>
          (case compress_huffman lz77_compressed of Inl e \<Rightarrow> Inl e
           | Inr (huffman_compressed, huffman_metadata) \<Rightarrow>
               Inr (huffman_compressed,
                    \<lparr>lz77 = lz77_metadata, huffman = huffman_metadata\<rparr>)))"

definition combined_decompress :: "byte list \<Rightarrow> combined_metadata \<Rightarrow> py_error + byte list" where
  "combined_decompress compressed_data metadata =
     (case decompress_huffman compressed_data (huffman metadata) of Inl e \<Rightarrow> Inl e
      | Inr huffman_decoded \<Rightarrow> decompress_lz77 huffman_decoded (lz77 metadata))"

section \<open>helper.py: the container file\<close>

text \<open>
  The open file is the list of the bytes not read yet.  \<open>f.read(n)\<close> returns the next
  \<open>n\<close> bytes, or all that are left when fewer remain, and never raises;
  \<open>struct.unpack\<close> raises \<open>struct.error\<close> unless its buffer has exactly the size of the
  format.
\<close>

definition file_read :: "nat \<Rightarrow> byte list \<Rightarrow> byte list \<times> byte list" where
  "file_read n f = (take n f, drop n f)"

definition unpack_II :: "byte list \<Rightarrow> py_error + (nat \<times> nat)" where
  "unpack_II buf =
     (if length buf = 8 then Inr (from_bytes_le (take 4 buf), from_bytes_le (drop 4 buf))
      else Inl StructError)"

definition unpack_B :: "byte list \<Rightarrow> py_error + nat" where
  "unpack_B buf = (if length buf = 1 then Inr (from_bytes_le buf) else Inl StructError)"

definition unpack_I :: "byte list \<Rightarrow> py_error + nat" where
  "unpack_I buf = (if length buf = 4 then Inr (from_bytes_le buf) else Inl StructError)"

record container_metadata =
  width :: nat
  height :: nat
  channels :: nat
  header_data :: "byte list"
  encoding_metadata :: "byte list"

text \<open>The body of the \<open>try\<close> block of \<open>load_compressed_file\<close>.\<close>

definition load_body :: "byte list \<Rightarrow> py_error + (byte list \<times> container_metadata)" where
  "load_body f0 =
     (let (b1, f1) = file_read 8 f0 in
      case unpack_II b1 of Inl e \<Rightarrow> Inl e
      | Inr (w, h) \<Rightarrow>
     (let (b2, f2) = file_read 1 f1 in
      case unpack_B b2 of Inl e \<Rightarrow> Inl e
      | Inr c \<Rightarrow>
     (let (b3, f3) = file_read 4 f2 in
      case unpack_I b3 of Inl e \<Rightarrow> Inl e
      | Inr header_length \<Rightarrow>
     (let (hdr, f4) = file_read header_length f3;
          (b5, f5) = file_read 4 f4 in
      case unpack_I b5 of Inl e \<Rightarrow> Inl e
      | Inr metadata_length \<Rightarrow>
     (let (enc, f6) = file_read metadata_length f5;
          (b7, f7) = file_read 4 f6 in
      case unpack_I b7 of Inl e \<Rightarrow> Inl e
      | Inr payload_length \<Rightarrow>
     (let (compressed_data, f8) = file_read payload_length f7 in
      Inr (compressed_data,
           \<lparr>width = w, height = h, channels = c, header_data = hdr,
            encoding_metadata = enc\<rparr>)))))))"

text \<open>\<open>except Exception\<close> turns every exception into the result \<open>(None, None)\<close>, here
  \<open>None\<close>.\<close>

definition load_compressed_file :: "byte list \<Rightarrow> (byte list \<times> container_metadata) option" where
  "load_compressed_file f =
     (case load_body f of Inl e \<Rightarrow> None | Inr r \<Rightarrow> Some r)"

section \<open>Notions used in the statements\<close>

text \<open>
  The encoding as the specification words it: a value below 128 is one byte; a larger
  value is two bytes, the high byte \<open>(value >> 8) | 0x80\<close> and the low byte
  \<open>value & 0xFF\<close>.
\<close>

definition spec_varint :: "nat \<Rightarrow> byte list" where
  "spec_varint v =
     (if v < 128 then [of_nat v] else [of_nat (drop_bit 8 v OR 128), of_nat (v AND 255)])"

text \<open>What one iteration of the loop of \<open>decompress_lz77\<close> does to \<open>result\<close> for a
  decoded token; \<open>next_char\<close> is \<open>None\<close> when the stream has no literal byte left.\<close>

definition decode_token :: "byte list \<Rightarrow> nat \<Rightarrow> nat \<Rightarrow> byte option \<Rightarrow> py_error + byte list" where
  "decode_token result offset len next_char =
     (if offset = 0 \<and> len = 0 then append_literal result next_char
      else (case copy_back result offset len of Inl e \<Rightarrow> Inl e
            | Inr copied \<Rightarrow> append_literal copied next_char))"

text \<open>
  The serialized code table as the specification words it: a 2-byte little-endian
  symbol count, then per symbol one symbol byte, one code-bit-length byte and
  \<open>ceil(length/8)\<close> bytes that hold the code bits most significant bit first, the last
  byte padded with zero bits.  \<open>chunk code i\<close> is the group of eight bits that starts
  at bit \<open>i\<close>, padded; \<open>bits_msb\<close> reads a group as a number, first bit highest.
\<close>

definition bits_msb :: "bool list \<Rightarrow> nat" where
  "bits_msb bs = foldl (\<lambda>acc b. 2 * acc + of_bool b) 0 bs"

definition chunk :: "string \<Rightarrow> nat \<Rightarrow> bool list" where
  "chunk code i = take 8 (drop i (map (\<lambda>c. c = CHR ''1'') code) @ replicate 8 False)"

definition spec_pack :: "string \<Rightarrow> byte list" where
  "spec_pack code =
     map (\<lambda>k. of_nat (bits_msb (chunk code (8 * k)))) [0 ..< (length code + 7) div 8]"

definition spec_entry :: "code_pair \<Rightarrow> byte list" where
  "spec_entry entry = fst entry # of_nat (length (snd entry)) # spec_pack (snd entry)"

definition spec_serialize_table :: "code_pair list \<Rightarrow> byte list" where
  "spec_serialize_table codes =
     [of_nat (length codes mod 256), of_nat (length codes div 256)]
     @ concat (map spec_entry codes)"

text \<open>
  A valid code table: a dictionary (distinct keys) of at most 256 byte symbols whose
  codes are non-empty strings of \<open>'0'\<close> and \<open>'1'\<close> of length at most 255.
\<close>

definition valid_table :: "code_pair list \<Rightarrow> bool" where
  "valid_table codes =
     (distinct (map fst codes) \<and> length codes \<le> 256 \<and>
      (\<forall>entry \<in> set codes. snd entry \<noteq> [] \<and> length (snd entry) \<le> 255 \<and>
          set (snd entry) \<subseteq> {CHR ''0'', CHR ''1''}))"

text \<open>
  The tokens \<open>(offset, length, next_char)\<close> that the loop of \<open>compress_lz77\<close> emits from
  a position on, and the bytes it appends for one token when offset and length are
  below 32768.
\<close>

function lz_tokens :: "byte list \<Rightarrow> nat \<Rightarrow> nat \<Rightarrow> nat \<Rightarrow> (nat \<times> nat \<times> byte option) list" where
  "lz_tokens data window_size lookahead_buffer_size current_pos =
     (if current_pos < length data then
        (case find_longest_match data current_pos window_size lookahead_buffer_size of
           (offset, len, next_char) \<Rightarrow>
             (offset, len, next_char)
             # lz_tokens data window_size lookahead_buffer_size (current_pos + len + 1))
      else [])"
  by pat_completeness auto
termination
  by (relation "measure (\<lambda>(data, window_size, lookahead_buffer_size, current_pos).
        length data - current_pos)") auto

declare lz_tokens.simps [simp del]

definition enc_token :: "nat \<times> nat \<times> byte option \<Rightarrow> byte list" where
  "enc_token t =
     (case t of (offset, len, next_char) \<Rightarrow>
        spec_varint offset @ spec_varint len
        @ [case next_char of None \<Rightarrow> 0xFF | Some c \<Rightarrow> c])"

text \<open>
  For the literal byte of a token: the byte that \<open>compress_lz77\<close> writes for
  \<open>next_char\<close>, the decoder run over a list of tokens instead of their bytes, the
  number of emitted tokens whose \<open>next_char\<close> is a genuine byte 0xFF, and, per token,
  the number of bytes the decoder appends (\<open>emitted\<close>) and the number of input bytes
  the compressor consumed (\<open>covered\<close>).
\<close>

definition literal_byte :: "byte option \<Rightarrow> byte" where
  "literal_byte next_char = (case next_char of None \<Rightarrow> 0xFF | Some c \<Rightarrow> c)"

fun decode_tokens :: "byte list \<Rightarrow> (nat \<times> nat \<times> byte option) list \<Rightarrow> py_error + byte list" where
  "decode_tokens result [] = Inr result"
| "decode_tokens result (t # ts) =
     (case decode_token result (fst t) (fst (snd t)) (Some (literal_byte (snd (snd t)))) of
        Inl e \<Rightarrow> Inl e
      | Inr result' \<Rightarrow> decode_tokens result' ts)"

definition ff_literals :: "byte list \<Rightarrow> nat \<Rightarrow> nat \<Rightarrow> nat" where
  "ff_literals data window_size lookahead_buffer_size =
     length (filter (\<lambda>t. snd (snd t) = Some 0xFF)
               (lz_tokens data window_size lookahead_buffer_size 0))"

definition emitted :: "nat \<times> nat \<times> byte option \<Rightarrow> nat" where
  "emitted t = fst (snd t) + (if literal_byte (snd (snd t)) = 0xFF then 0 else 1)"

definition covered :: "nat \<times> nat \<times> byte option \<Rightarrow> nat" where
  "covered t = fst (snd t) + (if snd (snd t) = None then 0 else 1)"

text \<open>
  The invariant of the heap of \<open>build_huffman_tree\<close>.  The pairs of an item are
  prefix-free, every code is shorter than the number of pairs of its item and consists
  of \<open>'0'\<close> and \<open>'1'\<close>; no symbol occurs twice in the heap.
\<close>

definition prefix_free :: "code_pair list \<Rightarrow> bool" where
  "prefix_free ps = (\<forall>p \<in> set ps. \<forall>q \<in> set ps. p \<noteq> q \<longrightarrow> \<not> prefix (snd p) (snd q))"

definition item_ok :: "code_pair list \<Rightarrow> bool" where
  "item_ok ps = (ps \<noteq> [] \<and> prefix_free ps \<and>
     (\<forall>p \<in> set ps. length (snd p) < length ps \<and> set (snd p) \<subseteq> {CHR ''0'', CHR ''1''}))"

definition heap_syms :: "heap_item list \<Rightarrow> byte list" where
  "heap_syms heap = concat (map (\<lambda>item. map fst (snd item)) heap)"

definition heap_inv :: "heap_item list \<Rightarrow> bool" where
  "heap_inv heap = (distinct (heap_syms heap) \<and> (\<forall>item \<in> set heap. item_ok (snd item)))"

text \<open>
  The fields of a container stream by position, for stating what the reader returns:
  the two length prefixes in front of the payload's, the position where the payload
  starts, and the payload's length prefix.
\<close>

definition header_length_of :: "byte list \<Rightarrow> nat" where
  "header_length_of f = from_bytes_le (take 4 (drop 9 f))"

definition metadata_length_of :: "byte list \<Rightarrow> nat" where
  "metadata_length_of f = from_bytes_le (take 4 (drop (13 + header_length_of f) f))"

definition payload_start :: "byte list \<Rightarrow> nat" where
  "payload_start f = 13 + header_length_of f + 4 + metadata_length_of f + 4"

definition payload_length_of :: "byte list \<Rightarrow> nat" where
  "payload_length_of f = from_bytes_le (take 4 (drop (payload_start f - 4) f))"

section \<open>Properties of lz77.py\<close>

subsection \<open>Variable-length integers\<close>

lemma nat_and_255: "(v::nat) AND 255 = v mod 256"
proof -
  have "v AND 255 = v AND mask 8" by (simp add: mask_eq_exp_minus_1)
  also have "\<dots> = take_bit 8 v" by (simp add: take_bit_eq_mask)
  finally show ?thesis by (simp add: take_bit_eq_mod)
qed

lemma nat_and_127: "(v::nat) AND 127 = v mod 128"
proof -
  have "v AND 127 = v AND mask 7" by (simp add: mask_eq_exp_minus_1)
  also have "\<dots> = take_bit 7 v" by (simp add: take_bit_eq_mask)
  finally show ?thesis by (simp add: take_bit_eq_mod)
qed

lemma nat_or_exp: "q < 2 ^ n \<Longrightarrow> (q::nat) OR 2 ^ n = q + 2 ^ n"
proof -
  assume q: "q < 2 ^ n"
  have t: "take_bit n q = q" using q by (simp add: take_bit_nat_eq_self)
  have "take_bit n q AND (2 ^ n :: nat) = 0"
    by (rule bit_eqI) (simp add: bit_simps)
  then have "take_bit n q + (2 ^ n :: nat) = take_bit n q OR 2 ^ n"
    by (rule disjunctive_add_eq_or)
  then show ?thesis using t by simp
qed

lemma nat_or_128: "q < 128 \<Longrightarrow> (q::nat) OR 128 = q + 128"
  using nat_or_exp [of q 7] by simp

lemma push_bit_8_or: "r < 256 \<Longrightarrow> push_bit 8 (q::nat) OR r = q * 256 + r"
proof -
  assume r: "r < 256"
  have t: "take_bit 8 r = r" using r by (simp add: take_bit_nat_eq_self)
  have "push_bit 8 q AND take_bit 8 r = 0"
    by (rule bit_eqI) (auto simp add: bit_simps)
  then have "push_bit 8 q + take_bit 8 r = push_bit 8 q OR take_bit 8 r"
    by (rule disjunctive_add_eq_or)
  then show ?thesis using t by (simp add: push_bit_eq_mult)
qed

lemma unat_byte: "n < 256 \<Longrightarrow> unat (of_nat n :: byte) = n"
  by (simp add: unat_of_nat)

lemma spec_varint_split:
  "v < 32768 \<Longrightarrow>
   spec_varint v =
     (if v < 128 then [of_nat v] else [of_nat (v div 256 + 128), of_nat (v mod 256)])"
  by (simp add: spec_varint_def nat_and_255 nat_or_128 drop_bit_eq_div del: of_nat_add)

lemma encode_field_spec:
  assumes "v < 32768"
  shows "encode_field v = Inr (spec_varint v)"
proof -
  have "v div 256 < 128" using assms by simp
  then show ?thesis
    by (simp add: encode_field_def spec_varint_def to_byte_def nat_and_255 nat_or_128
        drop_bit_eq_div)
qed

lemma decode_field_spec:
  assumes "v < 32768"
  shows "decode_field (pre @ spec_varint v @ post) (length pre)
         = Inr (v, length pre + length (spec_varint v))"
proof (cases "v < 128")
  case True
  then show ?thesis
    by (simp add: spec_varint_def decode_field_def index_def unat_byte)
next
  case False
  have q: "v div 256 < 128" using assms by simp
  then have "(v div 256 + 128) mod 128 = v div 256" by simp
  then show ?thesis using False q
    by (simp add: spec_varint_split [OF assms] decode_field_def index_def unat_byte
        nth_append nat_and_127 push_bit_8_or del: of_nat_add)
qed

lemma variable_length_encode_spec:
  "offset < 32768 \<Longrightarrow> len < 32768 \<Longrightarrow>
   variable_length_encode offset len = Inr (spec_varint offset @ spec_varint len)"
  by (simp add: variable_length_encode_def encode_field_spec)

lemma variable_length_decode_spec:
  assumes "offset < 32768" and "len < 32768"
  shows "variable_length_decode (pre @ spec_varint offset @ spec_varint len @ post) (length pre)
         = Inr (offset, len, length pre + length (spec_varint offset) + length (spec_varint len))"
proof -
  have 1: "decode_field (pre @ spec_varint offset @ spec_varint len @ post) (length pre)
           = Inr (offset, length pre + length (spec_varint offset))"
    using decode_field_spec [OF assms(1), of pre "spec_varint len @ post"] by simp
  have 2: "decode_field ((pre @ spec_varint offset) @ spec_varint len @ post)
             (length (pre @ spec_varint offset))
           = Inr (len, length (pre @ spec_varint offset) + length (spec_varint len))"
    by (rule decode_field_spec [OF assms(2)])
  show ?thesis using 1 2 by (simp add: variable_length_decode_def)
qed

text \<open>
  Claim C9.  For an offset and a length between 0 and 32767, \<open>variable_length_encode\<close>
  does not raise and returns the encoding of the offset followed by the encoding of
  the length, each one byte for a value below 128 and otherwise the two bytes
  \<open>(value >> 8) | 0x80\<close> and \<open>value & 0xFF\<close>; \<open>variable_length_decode\<close>, started at
  the first of these bytes wherever they stand in a stream, returns the offset, the
  length and the position just behind the bytes that were emitted.
\<close>

theorem variable_length_roundtrip:
  assumes "offset \<le> 32767" and "len \<le> 32767"
  shows "variable_length_encode offset len = Inr (spec_varint offset @ spec_varint len)
       \<and> length (spec_varint offset) = (if offset < 128 then 1 else 2)
       \<and> length (spec_varint len) = (if len < 128 then 1 else 2)
       \<and> variable_length_decode (pre @ spec_varint offset @ spec_varint len @ post) (length pre)
           = Inr (offset, len,
                  length pre + length (spec_varint offset) + length (spec_varint len))"
proof -
  have o: "offset < 32768" and l: "len < 32768" using assms by simp_all
  show ?thesis
    using variable_length_encode_spec [OF o l] variable_length_decode_spec [OF o l]
    by (simp add: spec_varint_def)
qed

theorem variable_length_roundtrip_witness:
  "variable_length_encode 300 5 = Inr [129, 44, 5]
   \<and> variable_length_decode [7, 129, 44, 5, 9] 1 = Inr (300, 5, 4)"
proof -
  have s1: "spec_varint 300 = [129, 44]" by (simp add: spec_varint_def nat_and_255 nat_or_128 drop_bit_eq_div)
  have s2: "spec_varint 5 = [5]" by (simp add: spec_varint_def)
  show ?thesis
    using variable_length_roundtrip [of 300 5 "[7]" "[9]"] by (simp add: s1 s2)
qed

subsection \<open>find_longest_match\<close>

lemma match_run_bound:
  "i + ml < pos \<Longrightarrow> i + match_run data i pos e ml \<le> pos"
proof (induction data i pos e ml rule: match_run.induct)
  case (1 data i current_pos end_of_buffer match_length)
  show ?case
    using 1 by (subst match_run.simps) auto
qed

lemma match_run_end:
  "pos + ml \<le> e \<Longrightarrow> pos + match_run data i pos e ml \<le> e"
proof (induction data i pos e ml rule: match_run.induct)
  case (1 data i current_pos end_of_buffer match_length)
  show ?case
    using 1 by (subst match_run.simps) auto
qed

text \<open>
  The state of the scan after the window starts \<open>lo, ..., hi - 1\<close>: the best length
  bounds every run seen, and a positive best length is the run of the start index
  \<open>pos - offset\<close>, which is the least start index with a run of that length.
\<close>

lemma scan_upt:
  assumes "hi \<le> pos"
  shows "let best = foldl (scan_step data pos e) (0, 0) [lo ..< hi] in
     (\<forall>i \<in> {lo ..< hi}. match_run data i pos e 0 \<le> fst best) \<and>
     (if fst best = 0 then snd best = 0
      else lo \<le> pos - snd best \<and> pos - snd best < hi \<and> 0 < snd best \<and> snd best \<le> pos \<and>
        match_run data (pos - snd best) pos e 0 = fst best \<and>
        (\<forall>i \<in> {lo ..< hi}. match_run data i pos e 0 = fst best \<longrightarrow> pos - snd best \<le> i))"
  using assms
proof (induction hi)
  case 0
  then show ?case by simp
next
  case (Suc hi)
  show ?case
  proof (cases "lo \<le> hi")
    case False
    then show ?thesis by simp
  next
    case lohi: True
    define best where "best = foldl (scan_step data pos e) (0, 0) [lo ..< hi]"
    define m where "m = match_run data hi pos e 0"
    have IH: "(\<forall>i \<in> {lo ..< hi}. match_run data i pos e 0 \<le> fst best) \<and>
     (if fst best = 0 then snd best = 0
      else lo \<le> pos - snd best \<and> pos - snd best < hi \<and> 0 < snd best \<and> snd best \<le> pos \<and>
        match_run data (pos - snd best) pos e 0 = fst best \<and>
        (\<forall>i \<in> {lo ..< hi}. match_run data i pos e 0 = fst best \<longrightarrow> pos - snd best \<le> i))"
      using Suc by (simp add: best_def Let_def)
    have step: "foldl (scan_step data pos e) (0, 0) [lo ..< Suc hi] =
       (if m > fst best then (m, pos - hi) else best)"
      using lohi by (simp add: best_def m_def scan_step_def Let_def)
    have hi: "hi < pos" using Suc.prems by simp
    have sub: "{lo ..< Suc hi} = insert hi {lo ..< hi}" using lohi by auto
    show ?thesis
    proof (cases "m > fst best")
      case True
      then show ?thesis using IH hi lohi unfolding Let_def step sub
        by (auto simp: m_def)
    next
      case False
      then show ?thesis using IH hi unfolding Let_def step sub
        by (auto simp: m_def)
    qed
  qed
qed

text \<open>What \<open>find_longest_match\<close> returns when it reports a match.\<close>

lemma find_longest_match_scan:
  assumes "find_longest_match data pos w l = (offset, len, next_char)" and "0 < len"
  shows "pos < length data"
    and "(offset, len) = (let best = foldl (scan_step data pos (min (pos + l) (length data)))
                                       (0, 0) [pos - w ..< pos] in (snd best, fst best))"
  using assms
  by (auto simp: find_longest_match_def Let_def split: if_splits)

lemma find_longest_match_facts:
  assumes flm: "find_longest_match data pos w l = (offset, len, next_char)" and len: "0 < len"
  shows "0 < offset" and "offset \<le> pos" and "pos - w \<le> pos - offset"
    and "match_run data (pos - offset) pos (min (pos + l) (length data)) 0 = len"
    and "\<And>i. pos - w \<le> i \<Longrightarrow> i < pos \<Longrightarrow>
           match_run data i pos (min (pos + l) (length data)) 0 \<le> len"
    and "\<And>i. pos - w \<le> i \<Longrightarrow> i < pos \<Longrightarrow>
           match_run data i pos (min (pos + l) (length data)) 0 = len \<Longrightarrow> pos - offset \<le> i"
proof -
  define e where "e = min (pos + l) (length data)"
  define best where "best = foldl (scan_step data pos e) (0, 0) [pos - w ..< pos]"
  have ol: "offset = snd best" "len = fst best"
    using find_longest_match_scan(2) [OF flm len] by (simp_all add: best_def e_def Let_def)
  have nz: "fst best \<noteq> 0" using len ol by simp
  have inv: "(\<forall>i \<in> {pos - w ..< pos}. match_run data i pos e 0 \<le> fst best) \<and>
      pos - w \<le> pos - snd best \<and> pos - snd best < pos \<and> 0 < snd best \<and> snd best \<le> pos \<and>
        match_run data (pos - snd best) pos e 0 = fst best \<and>
        (\<forall>i \<in> {pos - w ..< pos}. match_run data i pos e 0 = fst best \<longrightarrow> pos - snd best \<le> i)"
    using scan_upt [of pos pos data e "pos - w"] nz by (simp add: best_def Let_def)
  show "0 < offset" "offset \<le> pos" "pos - w \<le> pos - offset"
    "match_run data (pos - offset) pos (min (pos + l) (length data)) 0 = len"
    using inv ol by (simp_all add: e_def)
  show "match_run data i pos (min (pos + l) (length data)) 0 \<le> len"
    if "pos - w \<le> i" "i < pos" for i
    using inv ol that by (simp add: e_def)
  show "pos - offset \<le> i"
    if "pos - w \<le> i" "i < pos" "match_run data i pos (min (pos + l) (length data)) 0 = len" for i
    using inv ol that by (simp add: e_def)
qed

lemma find_longest_match_length_le_offset:
  assumes flm: "find_longest_match data pos w l = (offset, len, next_char)" and len: "0 < len"
  shows "len \<le> offset"
proof -
  note f = find_longest_match_facts [OF flm len]
  have "(pos - offset) + 0 < pos" using f(1) f(2) by simp
  then have "(pos - offset) + match_run data (pos - offset) pos (min (pos + l) (length data)) 0
             \<le> pos"
    by (rule match_run_bound)
  then show ?thesis using f(2) f(4) by simp
qed

text \<open>
  Claim C5, as stated, fails: in \<open>AAA\<close> at position 2 the window starts 0 and 1 both
  give a run of length 1, the maximum, and the result has offset 2, the larger one.
\<close>

theorem find_longest_match_tie_counterexample:
  "match_run [65, 65, 65] 0 2 3 0 = 1 \<and> match_run [65, 65, 65] 1 2 3 0 = 1
   \<and> find_longest_match [65, 65, 65] 2 4096 128 = (2, 1, None)"
  by code_simp

text \<open>
  Claim C5, amended.  The scan visits the window starts in ascending order and replaces
  the best match only by a strictly longer one, so among the starts that reach the
  maximal run length it returns the first one met: the smallest start index \<open>i\<close>, that
  is the largest offset.  In the statement \<open>match_run data i pos e 0\<close> is the run
  length the source computes for the start \<open>i\<close>.
\<close>

theorem find_longest_match_tie:
  assumes "find_longest_match data pos window_size lookahead_buffer_size
           = (offset, len, next_char)"
    and "0 < len"
    and "e = min (pos + lookahead_buffer_size) (length data)"
  shows "offset \<le> pos \<and> pos - window_size \<le> pos - offset
       \<and> match_run data (pos - offset) pos e 0 = len
       \<and> (\<forall>i. pos - window_size \<le> i \<and> i < pos \<longrightarrow>
             match_run data i pos e 0 \<le> len
             \<and> (match_run data i pos e 0 = len \<longrightarrow> pos - i \<le> offset))"
proof -
  note f = find_longest_match_facts [OF assms(1) assms(2)]
  have "pos - i \<le> offset"
    if "pos - window_size \<le> i" "i < pos" "match_run data i pos e 0 = len" for i
    using f(6) [of i] that f(2) assms(3) by simp
  then show ?thesis
    using f(2) f(3) f(4) f(5) assms(3) by simp
qed

theorem find_longest_match_tie_witness:
  "find_longest_match [65, 65, 65] 2 4096 128 = (2, 1, None)
   \<and> match_run [65, 65, 65] 1 2 3 0 = 1 \<and> (2::nat) - 1 \<le> 2"
proof -
  have h: "find_longest_match [65, 65, 65] 2 4096 128 = (2, 1, None)"
    by code_simp
  have m: "match_run [65, 65, 65] 1 2 3 0 = 1"
    by code_simp
  have e: "(3::nat) = min (2 + 128) (length [65, 65, 65 :: byte])"
    by simp
  show ?thesis
    using h m find_longest_match_tie [OF h _ e] by simp
qed

subsection \<open>compress_lz77\<close>

lemma find_longest_match_zero:
  assumes "find_longest_match data pos w l = (offset, 0, next_char)"
  shows "offset = 0"
proof -
  have "snd (foldl (scan_step data pos e) (0, 0) [pos - w ..< pos]) = 0"
    if "fst (foldl (scan_step data pos e) (0, 0) [pos - w ..< pos]) = 0" for e
    using scan_upt [of pos pos data e "pos - w"] that by (simp add: Let_def)
  then show ?thesis
    using assms by (auto simp: find_longest_match_def Let_def split: if_splits)
qed

lemma find_longest_match_bounds:
  assumes "find_longest_match data pos w l = (offset, len, next_char)"
  shows "len \<le> offset" and "offset \<le> w" and "offset \<le> pos"
proof -
  show "len \<le> offset"
    using assms find_longest_match_length_le_offset [of data pos w l offset len next_char]
    by (cases "0 < len") auto
  show "offset \<le> pos"
  proof (cases "0 < len")
    case True
    then show ?thesis using find_longest_match_facts(2) [OF assms] by simp
  next
    case False
    then show ?thesis using assms find_longest_match_zero [of data pos w l offset next_char] by simp
  qed
  show "offset \<le> w"
  proof (cases "0 < len")
    case True
    then show ?thesis
      using find_longest_match_facts(2) [OF assms True] find_longest_match_facts(3) [OF assms True]
      by linarith
  next
    case False
    then show ?thesis using assms find_longest_match_zero [of data pos w l offset next_char] by simp
  qed
qed

lemma find_longest_match_next_char:
  assumes "find_longest_match data pos w l = (offset, len, next_char)" and "pos < length data"
  shows "pos + len \<le> length data"
    and "next_char = (if pos + len < length data then Some (data ! (pos + len)) else None)"
proof -
  show "pos + len \<le> length data"
  proof (cases "0 < len")
    case True
    have "pos + match_run data (pos - offset) pos (min (pos + l) (length data)) 0
          \<le> min (pos + l) (length data)"
      by (rule match_run_end) (use assms(2) in simp)
    then show ?thesis using find_longest_match_facts(4) [OF assms(1) True] by simp
  next
    case False
    then show ?thesis using assms(2) by simp
  qed
  show "next_char = (if pos + len < length data then Some (data ! (pos + len)) else None)"
    using assms by (auto simp: find_longest_match_def Let_def min_def split: if_splits)
qed

lemma compress_loop_tokens:
  assumes "w < 32768"
  shows "compress_loop data w l pos result
         = Inr (result @ concat (map enc_token (lz_tokens data w l pos)))"
proof (induction "length data - pos" arbitrary: pos result rule: less_induct)
  case less
  show ?case
  proof (cases "pos < length data")
    case False
    then show ?thesis
      by (subst compress_loop.simps, subst lz_tokens.simps) simp
  next
    case True
    obtain offset len next_char where
      f: "find_longest_match data pos w l = (offset, len, next_char)"
      by (cases "find_longest_match data pos w l") auto
    have o: "offset < 32768" and n: "len < 32768"
      using find_longest_match_bounds [OF f] assms by simp_all
    have e: "variable_length_encode offset len = Inr (spec_varint offset @ spec_varint len)"
      by (rule variable_length_encode_spec [OF o n])
    have "length data - (pos + len + 1) < length data - pos" using True by simp
    from less.hyps [OF this]
    have IH: "compress_loop data w l (Suc (pos + len)) r
              = Inr (r @ concat (map enc_token (lz_tokens data w l (Suc (pos + len)))))" for r
      by simp
    show ?thesis
      using True
      by (subst compress_loop.simps, subst lz_tokens.simps)
         (simp add: f e IH enc_token_def)
  qed
qed

lemma lz_tokens_no_overlap:
  "t \<in> set (lz_tokens data w l pos) \<Longrightarrow> fst (snd t) \<le> fst t"
proof (induction "length data - pos" arbitrary: pos rule: less_induct)
  case less
  show ?case
  proof (cases "pos < length data")
    case False
    then show ?thesis using less.prems by (subst (asm) lz_tokens.simps) simp
  next
    case True
    obtain offset len next_char where
      f: "find_longest_match data pos w l = (offset, len, next_char)"
      by (cases "find_longest_match data pos w l") auto
    have "lz_tokens data w l pos = (offset, len, next_char) # lz_tokens data w l (pos + len + 1)"
      using True by (subst lz_tokens.simps) (simp add: f)
    then consider "t = (offset, len, next_char)" | "t \<in> set (lz_tokens data w l (pos + len + 1))"
      using less.prems by auto
    then show ?thesis
    proof cases
      case 1
      then show ?thesis using find_longest_match_bounds(1) [OF f] by simp
    next
      case 2
      have "length data - (pos + len + 1) < length data - pos" using True by simp
      from less.hyps [OF this 2] show ?thesis .
    qed
  qed
qed

text \<open>
  Claim C10.  Whenever \<open>find_longest_match\<close> returns a match of positive length, its
  length is at most its offset and its offset at most the current position: the matched
  run ends at or before the current position.  Hence no token that \<open>compress_lz77\<close>
  emits, from whatever position its loop is started, has an offset below its length.
\<close>

theorem find_longest_match_no_overlap:
  assumes "find_longest_match data pos window_size lookahead_buffer_size
           = (offset, len, next_char)"
    and "0 < len"
  shows "0 < len \<and> len \<le> offset \<and> offset \<le> pos
       \<and> (\<forall>t \<in> set (lz_tokens data window_size lookahead_buffer_size start).
             \<not> fst t < fst (snd t))"
  using assms find_longest_match_length_le_offset [OF assms] find_longest_match_facts(2) [OF assms]
    lz_tokens_no_overlap [of _ data window_size lookahead_buffer_size start]
  by (auto simp: not_less)

theorem find_longest_match_no_overlap_witness:
  "find_longest_match [65, 66, 65, 66, 67] 2 4096 128 = (2, 2, Some 67)
   \<and> lz_tokens [65, 66, 65, 66, 67] 4096 128 0
       = [(0, 0, Some 65), (0, 0, Some 66), (2, 2, Some 67)]
   \<and> (0::nat) < 2 \<and> (2::nat) \<le> 2"
proof -
  have h: "find_longest_match [65, 66, 65, 66, 67] 2 4096 128 = (2, 2, Some 67)"
    by code_simp
  have t: "lz_tokens [65, 66, 65, 66, 67] 4096 128 0
           = [(0, 0, Some 65), (0, 0, Some 66), (2, 2, Some 67)]"
    by code_simp
  show ?thesis
    using h t find_longest_match_no_overlap [OF h, of 0] by simp
qed

subsection \<open>decompress_lz77 on malformed streams\<close>

lemma index_append_Inr: "index xs i = Inr b \<Longrightarrow> index (xs @ ys) i = Inr b"
  by (auto simp: index_def nth_append split: if_splits)

lemma decode_field_append:
  "decode_field xs pos = Inr r \<Longrightarrow> decode_field (xs @ ys) pos = Inr r"
  by (auto simp: decode_field_def index_append_Inr split: sum.splits if_splits)

lemma variable_length_decode_append:
  "variable_length_decode xs pos = Inr r \<Longrightarrow> variable_length_decode (xs @ ys) pos = Inr r"
  by (auto simp: variable_length_decode_def decode_field_append split: sum.splits prod.splits)

lemma decode_field_error: "decode_field data pos = Inl e \<Longrightarrow> e = IndexError"
  by (auto simp: decode_field_def index_def split: sum.splits if_splits)

lemma variable_length_decode_error:
  "variable_length_decode data pos = Inl e \<Longrightarrow> e = IndexError"
  by (auto simp: variable_length_decode_def split: sum.splits prod.splits dest: decode_field_error)

lemma decompress_loop_step:
  assumes "pos < length data"
  shows "decompress_loop data pos result =
     (case variable_length_decode data pos of Inl e \<Rightarrow> Inl e
      | Inr (offset, len, pos') \<Rightarrow>
          (case decode_token result offset len
                  (if pos' < length data then Some (data ! pos') else None) of
             Inl e \<Rightarrow> Inl e
           | Inr result' \<Rightarrow> decompress_loop data (pos' + 1) result'))"
  using assms
  by (subst decompress_loop.simps)
     (auto simp: decode_token_def Let_def split: sum.splits prod.splits)

lemma decompress_loop_done: "length data \<le> pos \<Longrightarrow> decompress_loop data pos result = Inr result"
  by (subst decompress_loop.simps) simp

lemma append_literal_None: "append_literal result None = Inl TypeError"
  by (simp add: append_literal_def)

lemma decode_token_None:
  "decode_token result offset len None = Inr r \<Longrightarrow> False"
  by (auto simp: decode_token_def append_literal_None split: if_splits sum.splits)

lemma decompress_loop_append:
  "decompress_loop pre pos result = Inr r \<Longrightarrow> pos \<le> length pre \<Longrightarrow>
   decompress_loop (pre @ rest) pos result = decompress_loop (pre @ rest) (length pre) r"
proof (induction "length pre - pos" arbitrary: pos result rule: less_induct)
  case less
  show ?case
  proof (cases "pos < length pre")
    case False
    then have "pos = length pre" using less.prems by simp
    moreover have "r = result" using less.prems False by (simp add: decompress_loop_done)
    ultimately show ?thesis by simp
  next
    case True
    from less.prems(1) True obtain offset len pos' result' where
      v: "variable_length_decode pre pos = Inr (offset, len, pos')" and
      t: "decode_token result offset len (if pos' < length pre then Some (pre ! pos') else None) = Inr result'" and
      l: "decompress_loop pre (pos' + 1) result' = Inr r"
      by (auto simp: decompress_loop_step split: sum.splits prod.splits)
    have p: "pos' < length pre"
      using t decode_token_None by (cases "pos' < length pre") auto
    have pp: "pos < pos'" using v by (rule variable_length_decode_advances)
    have v': "variable_length_decode (pre @ rest) pos = Inr (offset, len, pos')"
      using v by (rule variable_length_decode_append)
    have t': "decode_token result offset len (if pos' < length (pre @ rest) then Some ((pre @ rest) ! pos') else None) = Inr result'"
      using t p by (simp add: nth_append)
    have "decompress_loop (pre @ rest) (pos' + 1) result' = decompress_loop (pre @ rest) (length pre) r"
      using less.hyps [of "pos' + 1" result'] l p pp by simp
    moreover have "decompress_loop (pre @ rest) pos result = decompress_loop (pre @ rest) (pos' + 1) result'"
      using True v' t' by (simp add: decompress_loop_step)
    ultimately show ?thesis by simp
  qed
qed

lemma neg_index_error: "neg_index xs k = Inl e \<Longrightarrow> e = IndexError"
  by (auto simp: neg_index_def index_def split: if_splits)

lemma copy_back_error: "copy_back result offset n = Inl e \<Longrightarrow> e = IndexError"
  by (induction n arbitrary: result) (auto split: sum.splits dest: neg_index_error)

lemma copy_back_too_far:
  "0 < n \<Longrightarrow> length result < offset \<Longrightarrow> copy_back result offset n = Inl IndexError"
  by (cases n) (auto simp: neg_index_def)

text \<open>
  Claim C4, as stated, fails.  A stream that ends inside a two-byte offset, a token
  without its literal byte and a token whose offset exceeds the bytes reconstructed so
  far are not rejected by a check: the first and the third are indexed out of range
  and raise IndexError, the second appends \<open>None\<close> and raises TypeError.  A token with
  offset 0 and length 2 is not rejected at all: it copies \<open>result[0]\<close> twice.
\<close>

theorem decompress_lz77_malformed_counterexample:
  "decompress_lz77 [128] (Lz77_applied 4096 128) = Inl IndexError
   \<and> decompress_lz77 [0, 0] (Lz77_applied 4096 128) = Inl TypeError
   \<and> decompress_lz77 [0, 0, 65, 5, 2, 66] (Lz77_applied 4096 128) = Inl IndexError
   \<and> decompress_lz77 [0, 0, 65, 0, 2, 66] (Lz77_applied 4096 128) = Inr [65, 65, 65, 66]"
  by code_simp

text \<open>
  Claim C4, amended.  \<open>decompress_lz77\<close> does not validate a token before it indexes.
  After any stream \<open>pre\<close> that it decodes to \<open>r\<close>, a further token makes it raise
  IndexError when the stream ends inside the token's offset or length field (the read
  \<open>data[pos]\<close> or \<open>data[pos + 1]\<close> is out of range) and when the token has a positive
  length and an offset above the number of bytes reconstructed so far (the read
  \<open>result[-offset]\<close> is out of range), and TypeError when the token's literal byte is
  missing and the back-copy succeeded (\<open>None\<close> is appended).  These are the
  interpreter's exceptions from its own bounds and type checks; there is no typed
  decode error.
\<close>

theorem decompress_lz77_malformed:
  assumes "decompress_lz77 pre (Lz77_applied w l) = Inr r" and "rest \<noteq> []"
  shows "(variable_length_decode (pre @ rest) (length pre) = Inl IndexError \<longrightarrow>
            decompress_lz77 (pre @ rest) (Lz77_applied w l) = Inl IndexError)
       \<and> (\<forall>offset len pos'.
            variable_length_decode (pre @ rest) (length pre) = Inr (offset, len, pos')
            \<and> 0 < len \<and> length r < offset \<longrightarrow>
            decompress_lz77 (pre @ rest) (Lz77_applied w l) = Inl IndexError)
       \<and> (\<forall>offset len pos' copied.
            variable_length_decode (pre @ rest) (length pre) = Inr (offset, len, pos')
            \<and> length (pre @ rest) \<le> pos' \<and> copy_back r offset len = Inr copied \<longrightarrow>
            decompress_lz77 (pre @ rest) (Lz77_applied w l) = Inl TypeError)"
proof -
  have "decompress_loop pre 0 [] = Inr r" using assms(1) by (simp add: decompress_lz77_def)
  then have "decompress_loop (pre @ rest) 0 [] = decompress_loop (pre @ rest) (length pre) r"
    by (rule decompress_loop_append) simp
  then have eq: "decompress_lz77 (pre @ rest) (Lz77_applied w l) = decompress_loop (pre @ rest) (length pre) r"
    by (simp add: decompress_lz77_def)
  have lt: "length pre < length (pre @ rest)" using assms(2) by simp
  show ?thesis
    unfolding eq decompress_loop_step [OF lt]
    by (auto simp: decode_token_def copy_back_too_far append_literal_None split: sum.splits)
qed

theorem decompress_lz77_malformed_witness:
  "decompress_lz77 [0, 0, 65] (Lz77_applied 4096 128) = Inr [65]
   \<and> decompress_lz77 ([0, 0, 65] @ [128]) (Lz77_applied 4096 128) = Inl IndexError
   \<and> decompress_lz77 ([0, 0, 65] @ [5, 2, 66]) (Lz77_applied 4096 128) = Inl IndexError
   \<and> decompress_lz77 ([0, 0, 65] @ [0, 0]) (Lz77_applied 4096 128) = Inl TypeError"
proof -
  have h: "decompress_lz77 [0, 0, 65] (Lz77_applied 4096 128) = Inr [65]"
    by code_simp
  have v1: "variable_length_decode ([0, 0, 65] @ [128]) (length [0, 0, 65 :: byte])
            = Inl IndexError"
    by code_simp
  have v2: "variable_length_decode ([0, 0, 65] @ [5, 2, 66]) (length [0, 0, 65 :: byte])
            = Inr (5, 2, 5)"
    by code_simp
  have v3: "variable_length_decode ([0, 0, 65] @ [0, 0]) (length [0, 0, 65 :: byte])
            = Inr (0, 0, 5)"
    by code_simp
  have c3: "copy_back [65] 0 0 = Inr [65]"
    by simp
  have 1: "decompress_lz77 ([0, 0, 65] @ [128]) (Lz77_applied 4096 128) = Inl IndexError"
    using decompress_lz77_malformed [OF h, of "[128]"] v1 by simp
  have 2: "decompress_lz77 ([0, 0, 65] @ [5, 2, 66]) (Lz77_applied 4096 128) = Inl IndexError"
    using decompress_lz77_malformed [OF h, of "[5, 2, 66]"] v2 by simp
  have 3: "decompress_lz77 ([0, 0, 65] @ [0, 0]) (Lz77_applied 4096 128) = Inl TypeError"
    using decompress_lz77_malformed [OF h, of "[0, 0]"] v3 c3 by simp
  show ?thesis using h 1 2 3 by simp
qed

section \<open>Properties of huffman.py\<close>

subsection \<open>serialize_tree and deserialize_tree\<close>

lemma foldl_bits_bit:
  "bit (foldl (\<lambda>acc b. 2 * acc + of_bool b) (a::nat) bs) n
     = (if n < length bs then rev bs ! n else bit a (n - length bs))"
proof (induction bs arbitrary: n rule: rev_induct)
  case Nil
  then show ?case by simp
next
  case (snoc b bs)
  show ?case
  proof (cases n)
    case 0
    then show ?thesis by (simp add: bit_0)
  next
    case (Suc m)
    then show ?thesis using snoc [of m] by (simp add: bit_Suc)
  qed
qed

lemma foldl_bits_less:
  "a < 2 ^ k \<Longrightarrow> foldl (\<lambda>acc b. 2 * acc + of_bool b) (a::nat) bs < 2 ^ (k + length bs)"
proof (induction bs arbitrary: a k)
  case Nil
  then show ?case by simp
next
  case (Cons b bs)
  have "2 * a + of_bool b < 2 ^ (Suc k)" using Cons.prems by (cases b) auto
  from Cons.IH [OF this] show ?case by simp
qed

lemma bits_msb_less: "bits_msb bs < 2 ^ length bs"
  using foldl_bits_less [of 0 0 bs] by (simp add: bits_msb_def)

lemma length_chunk: "length (chunk code i) = 8"
  by (simp add: chunk_def)

lemma nth_chunk:
  "j < 8 \<Longrightarrow> chunk code i ! j = (i + j < length code \<and> code ! (i + j) = CHR ''1'')"
  by (auto simp: chunk_def nth_append)

lemma chunk_explicit:
  "chunk code i = map (\<lambda>j. i + j < length code \<and> code ! (i + j) = CHR ''1'') [0 ..< 8]"
  by (rule nth_equalityI) (simp_all add: length_chunk nth_chunk)

lemma upt_8: "[0 ..< 8] = [0, 1, 2, 3, 4, 5, 6, 7 :: nat]"
  by (simp add: upt_rec)

lemma byte_val_chunk: "byte_val code i = bits_msb (chunk code i)"
  unfolding byte_val_def sum_list_map_filter' chunk_explicit bits_msb_def upt_8
  by (simp add: push_bit_eq_mult)

lemma collect_Inr: "collect (map (\<lambda>x. Inr (f x)) xs) = Inr (map f xs)"
  by (induction xs) auto

lemma collect_map_Inr:
  "(\<And>x. x \<in> set xs \<Longrightarrow> g x = Inr (f x)) \<Longrightarrow> collect (map g xs) = Inr (map f xs)"
  by (induction xs) auto

lemma byte_val_less: "byte_val code i < 256"
  using bits_msb_less [of "chunk code i"] by (simp add: byte_val_chunk length_chunk)

lemma length_range8: "length (range8 n) = (n + 7) div 8"
  by (simp add: range8_def)

lemma length_spec_pack: "length (spec_pack code) = (length code + 7) div 8"
  by (simp add: spec_pack_def)

lemma serialize_entry_spec:
  "length (snd entry) \<le> 255 \<Longrightarrow> serialize_entry entry = Inr (spec_entry entry)"
proof -
  assume l: "length (snd entry) \<le> 255"
  have "collect (map (\<lambda>i. to_byte (byte_val (snd entry) i)) (range8 (length (snd entry))))
        = Inr (map (\<lambda>i. of_nat (byte_val (snd entry) i)) (range8 (length (snd entry))))"
    by (rule collect_map_Inr) (simp add: to_byte_def byte_val_less)
  moreover have "map (\<lambda>i. of_nat (byte_val (snd entry) i)) (range8 (length (snd entry)))
        = spec_pack (snd entry)"
    by (simp add: spec_pack_def range8_def byte_val_chunk comp_def)
  ultimately show ?thesis using l
    by (simp add: serialize_entry_def spec_entry_def to_byte_def)
qed

lemma serialize_tree_spec:
  assumes "length codes < 65536" and "\<And>entry. entry \<in> set codes \<Longrightarrow> length (snd entry) \<le> 255"
  shows "serialize_tree codes = Inr (spec_serialize_table codes)"
proof -
  have "collect (map serialize_entry codes) = Inr (map spec_entry codes)"
    by (rule collect_map_Inr) (simp add: serialize_entry_spec assms(2))
  then show ?thesis using assms(1)
    by (simp add: serialize_tree_def to_bytes2_def spec_serialize_table_def)
qed

lemma bit_spec_pack:
  assumes "i < length code"
  shows "bit (unat (spec_pack code ! (i div 8))) (7 - i mod 8) = (code ! i = CHR ''1'')"
proof -
  have k: "i div 8 < (length code + 7) div 8" using assms by (simp add: less_mult_imp_div_less div_le_mono Suc_le_eq) 
  have "unat (spec_pack code ! (i div 8)) = bits_msb (chunk code (8 * (i div 8)))"
    using k bits_msb_less [of "chunk code (8 * (i div 8))"]
    by (simp add: spec_pack_def unat_byte length_chunk)
  moreover have "bit (bits_msb (chunk code (8 * (i div 8)))) (7 - i mod 8)
                 = chunk code (8 * (i div 8)) ! (i mod 8)"
  proof -
    have a: "7 - i mod 8 < 8" by simp
    have b: "8 - Suc (7 - i mod 8) = i mod 8" by (simp add: Suc_diff_le)
    show ?thesis
      unfolding bits_msb_def foldl_bits_bit
      using a b by (simp add: length_chunk rev_nth)
  qed
  moreover have "chunk code (8 * (i div 8)) ! (i mod 8) = (code ! i = CHR ''1'')"
    using assms by (simp add: nth_chunk)
  ultimately show ?thesis by simp
qed

lemma read_code_spec:
  assumes "set code \<subseteq> {CHR ''0'', CHR ''1''}"
  shows "read_code (pre @ spec_pack code @ post) (length pre) (length code) = Inr code"
proof -
  have "collect (map (\<lambda>i. case index (pre @ spec_pack code @ post) (length pre + i div 8) of
                         Inl e \<Rightarrow> Inl e
                       | Inr b \<Rightarrow> Inr (if unat b AND push_bit (7 - i mod 8) 1 \<noteq> 0
                                       then CHR ''1'' else CHR ''0''))
                 [0 ..< length code])
        = Inr (map (\<lambda>i. code ! i) [0 ..< length code])"
  proof (rule collect_map_Inr)
    fix i assume "i \<in> set [0 ..< length code]"
    then have i: "i < length code" by simp
    then have k: "i div 8 < length (spec_pack code)"
      by (simp add: length_spec_pack less_mult_imp_div_less div_le_mono Suc_le_eq)
    then have ix: "index (pre @ spec_pack code @ post) (length pre + i div 8)
               = Inr (spec_pack code ! (i div 8))"
      by (simp add: index_def nth_append)
    have "(unat (spec_pack code ! (i div 8)) AND push_bit (7 - i mod 8) 1 \<noteq> 0)
          = (code ! i = CHR ''1'')"
      using bit_spec_pack [OF i] by (simp add: bit_iff_and_push_bit_not_eq_0)
    moreover have "code ! i = CHR ''0'' \<or> code ! i = CHR ''1''"
    proof -
      have "code ! i \<in> set code" using i by simp
      with assms show ?thesis by blast
    qed
    ultimately show "(case index (pre @ spec_pack code @ post) (length pre + i div 8) of
                         Inl e \<Rightarrow> Inl e
                       | Inr b \<Rightarrow> Inr (if unat b AND push_bit (7 - i mod 8) 1 \<noteq> 0
                                       then CHR ''1'' else CHR ''0'')) = Inr (code ! i)"
      unfolding ix by auto
  qed
  then show ?thesis by (simp add: read_code_def map_nth)
qed

lemma deserialize_loop_spec:
  assumes "\<And>entry. entry \<in> set rest \<Longrightarrow>
             length (snd entry) \<le> 255 \<and> set (snd entry) \<subseteq> {CHR ''0'', CHR ''1''}"
  shows "deserialize_loop (length rest) (pre @ concat (map spec_entry rest) @ post)
           (length pre) acc
         = Inr (foldl (\<lambda>m (symbol, code). AList.update symbol code m) acc rest)"
  using assms
proof (induction rest arbitrary: pre acc)
  case Nil
  then show ?case by simp
next
  case (Cons entry rest)
  obtain symbol code where e: "entry = (symbol, code)" by (cases entry)
  have len: "length code \<le> 255" and bits: "set code \<subseteq> {CHR ''0'', CHR ''1''}"
    using Cons.prems [of entry] e by simp_all
  define data where "data = pre @ concat (map spec_entry (entry # rest)) @ post"
  define tail where "tail = concat (map spec_entry rest) @ post"
  have d1: "data = pre @ symbol # of_nat (length code) # spec_pack code @ tail"
    by (simp add: data_def tail_def spec_entry_def e)
  have d2: "data = (pre @ [symbol, of_nat (length code)]) @ spec_pack code @ tail"
    by (simp add: d1)
  have d3: "data = (pre @ spec_entry entry) @ concat (map spec_entry rest) @ post"
    by (simp add: data_def)
  have i0: "index data (length pre) = Inr symbol"
    by (simp add: d1 index_def)
  have i1: "index data (length pre + 1) = Inr (of_nat (length code))"
    by (simp add: d1 index_def nth_append)
  have u: "unat (of_nat (length code) :: byte) = length code"
    using len by (simp add: unat_byte)
  have rc: "read_code data (length pre + 2) (length code) = Inr code"
    using read_code_spec [OF bits, of "pre @ [symbol, of_nat (length code)]" tail]
    by (simp add: d2)
  have np: "length pre + 2 + (length code + 7) div 8 = length (pre @ spec_entry entry)"
    by (simp add: spec_entry_def e length_spec_pack)
  have IH: "deserialize_loop (length rest) data (length (pre @ spec_entry entry))
              (AList.update symbol code acc)
            = Inr (foldl (\<lambda>m (symbol, code). AList.update symbol code m)
                     (AList.update symbol code acc) rest)"
    unfolding d3 by (rule Cons.IH) (simp add: Cons.prems)
  have "deserialize_loop (Suc (length rest)) data (length pre) acc
        = deserialize_loop (length rest) data (length (pre @ spec_entry entry))
            (AList.update symbol code acc)"
    by (simp only: deserialize_loop.simps i0 i1 u rc np sum.case)
  then show ?case
    unfolding data_def [symmetric] using IH by (simp add: e)
qed

lemma update_fresh: "k \<notin> fst ` set al \<Longrightarrow> AList.update k v al = al @ [(k, v)]"
  by (induction al) auto

lemma foldl_update_distinct:
  "distinct (map fst (acc @ rest)) \<Longrightarrow>
   foldl (\<lambda>m (symbol, code). AList.update symbol code m) acc rest = acc @ rest"
proof (induction rest arbitrary: acc)
  case Nil
  then show ?case by simp
next
  case (Cons entry rest)
  obtain k v where e: "entry = (k, v)" by (cases entry)
  have fresh: "k \<notin> fst ` set acc" using Cons.prems e by auto
  have "distinct (map fst ((acc @ [(k, v)]) @ rest))" using Cons.prems e by simp
  from Cons.IH [OF this] show ?case by (simp add: e update_fresh [OF fresh])
qed

lemma from_bytes_le_count:
  "n < 65536 \<Longrightarrow> from_bytes_le [of_nat (n mod 256), of_nat (n div 256)] = n"
  by (simp add: from_bytes_le_def unat_byte)

lemma deserialize_tree_spec:
  assumes "valid_table codes"
  shows "deserialize_tree (spec_serialize_table codes) = Inr codes"
proof -
  define hdr :: "byte list"
    where "hdr = [of_nat (length codes mod 256), of_nat (length codes div 256)]"
  have n: "length codes < 65536" using assms by (simp add: valid_table_def)
  have l: "length hdr = 2" by (simp add: hdr_def)
  have t: "take 2 (hdr @ concat (map spec_entry codes)) = hdr" by (simp add: hdr_def)
  have c: "from_bytes_le hdr = length codes"
    unfolding hdr_def by (rule from_bytes_le_count [OF n])
  have "deserialize_loop (length codes) (hdr @ concat (map spec_entry codes) @ [])
          (length hdr) []
        = Inr (foldl (\<lambda>m (symbol, code). AList.update symbol code m) [] codes)"
    by (rule deserialize_loop_spec) (use assms in \<open>auto simp: valid_table_def\<close>)
  moreover have "foldl (\<lambda>m (symbol, code). AList.update symbol code m) [] codes = codes"
    using foldl_update_distinct [of "[]" codes] assms by (simp add: valid_table_def)
  ultimately have "deserialize_loop (length codes) (hdr @ concat (map spec_entry codes)) 2 []
                   = Inr codes"
    by (simp only: l append_Nil2)
  moreover have "spec_serialize_table codes = hdr @ concat (map spec_entry codes)"
    by (simp add: spec_serialize_table_def hdr_def)
  ultimately show ?thesis
    by (simp only: deserialize_tree_def t c)
qed

text \<open>
  Claim C7.  For every valid code table, \<open>serialize_tree\<close> does not raise and returns
  the bytes of the specified format (the little-endian count, then per symbol the
  symbol byte, the length byte and the packed code bits), and \<open>deserialize_tree\<close>
  applied to these bytes returns the table, with its entries in the same order.
\<close>

theorem serialize_tree_roundtrip:
  assumes "valid_table codes"
  shows "serialize_tree codes = Inr (spec_serialize_table codes)
       \<and> deserialize_tree (spec_serialize_table codes) = Inr codes"
proof -
  have "serialize_tree codes = Inr (spec_serialize_table codes)"
    by (rule serialize_tree_spec) (use assms in \<open>auto simp: valid_table_def\<close>)
  then show ?thesis using deserialize_tree_spec [OF assms] by simp
qed

theorem serialize_tree_roundtrip_witness:
  "serialize_tree [(65, ''0''), (66, ''110010011'')] = Inr [2, 0, 65, 1, 0, 66, 9, 201, 128]
   \<and> deserialize_tree [2, 0, 65, 1, 0, 66, 9, 201, 128]
       = Inr [(65, ''0''), (66, ''110010011'')]"
proof -
  have v: "valid_table [(65, ''0''), (66, ''110010011'')]"
    by (simp add: valid_table_def)
  have b: "spec_serialize_table [(65, ''0''), (66, ''110010011'')]
           = [2, 0, 65, 1, 0, 66, 9, 201, 128]"
    by code_simp
  show ?thesis
    using serialize_tree_roundtrip [OF v] by (simp only: b simp_thms)
qed

subsection \<open>build_huffman_tree and build_huffman_codes\<close>

lemma map_fst_prepend_bit: "map fst (prepend_bit b ps) = map fst ps"
  by (simp add: prepend_bit_def case_prod_unfold comp_def)

lemma length_prepend_bit: "length (prepend_bit b ps) = length ps"
  by (simp add: prepend_bit_def)

lemma set_prepend_bit: "set (prepend_bit b ps) = (\<lambda>p. (fst p, b # snd p)) ` set ps"
  by (auto simp: prepend_bit_def case_prod_unfold)

lemma prefix_free_prepend:
  assumes "prefix_free ps"
  shows "prefix_free (prepend_bit b ps)"
  unfolding prefix_free_def
proof (intro ballI impI)
  fix p q
  assume p: "p \<in> set (prepend_bit b ps)" and q: "q \<in> set (prepend_bit b ps)" and ne: "p \<noteq> q"
  from p obtain p0 where p0: "p0 \<in> set ps" "p = (fst p0, b # snd p0)"
    by (auto simp: set_prepend_bit)
  from q obtain q0 where q0: "q0 \<in> set ps" "q = (fst q0, b # snd q0)"
    by (auto simp: set_prepend_bit)
  have "p0 \<noteq> q0" using ne p0 q0 by auto
  then have "\<not> prefix (snd p0) (snd q0)" using assms p0 q0 by (simp add: prefix_free_def)
  then show "\<not> prefix (snd p) (snd q)" by (simp add: p0 q0)
qed

lemma prefix_free_append:
  assumes "prefix_free ps" and "prefix_free qs"
    and "\<And>p q. p \<in> set ps \<Longrightarrow> q \<in> set qs \<Longrightarrow>
           \<not> prefix (snd p) (snd q) \<and> \<not> prefix (snd q) (snd p)"
  shows "prefix_free (ps @ qs)"
  using assms unfolding prefix_free_def set_append by blast

lemma item_ok_merge:
  assumes "item_ok ps" and "item_ok qs"
  shows "item_ok (prepend_bit (CHR ''0'') ps @ prepend_bit (CHR ''1'') qs)"
proof -
  have "prefix_free (prepend_bit (CHR ''0'') ps @ prepend_bit (CHR ''1'') qs)"
  proof (rule prefix_free_append)
    show "prefix_free (prepend_bit (CHR ''0'') ps)" "prefix_free (prepend_bit (CHR ''1'') qs)"
      using assms by (simp_all add: item_ok_def prefix_free_prepend)
  next
    fix p q
    assume "p \<in> set (prepend_bit (CHR ''0'') ps)" and "q \<in> set (prepend_bit (CHR ''1'') qs)"
    then show "\<not> prefix (snd p) (snd q) \<and> \<not> prefix (snd q) (snd p)"
      by (auto simp: set_prepend_bit)
  qed
  moreover have "length (snd p) < length (prepend_bit (CHR ''0'') ps @ prepend_bit (CHR ''1'') qs)
        \<and> set (snd p) \<subseteq> {CHR ''0'', CHR ''1''}"
    if "p \<in> set (prepend_bit (CHR ''0'') ps @ prepend_bit (CHR ''1'') qs)" for p
  proof -
    have n: "0 < length ps" "0 < length qs" using assms by (auto simp: item_ok_def)
    from that consider p0 where "p0 \<in> set ps" "p = (fst p0, CHR ''0'' # snd p0)"
      | q0 where "q0 \<in> set qs" "p = (fst q0, CHR ''1'' # snd q0)"
      by (auto simp: set_prepend_bit)
    then show ?thesis
    proof cases
      case 1
      then have "length (snd p0) < length ps" "set (snd p0) \<subseteq> {CHR ''0'', CHR ''1''}"
        using assms(1) by (simp_all add: item_ok_def)
      moreover from this n have "Suc (length (snd p0)) < length ps + length qs" by linarith
      ultimately show ?thesis using 1 by (simp add: length_prepend_bit)
    next
      case 2
      then have "length (snd q0) < length qs" "set (snd q0) \<subseteq> {CHR ''0'', CHR ''1''}"
        using assms(2) by (simp_all add: item_ok_def)
      moreover from this n have "Suc (length (snd q0)) < length ps + length qs" by linarith
      ultimately show ?thesis using 2 by (simp add: length_prepend_bit)
    qed
  qed
  moreover have "prepend_bit (CHR ''0'') ps @ prepend_bit (CHR ''1'') qs \<noteq> []"
    using assms by (simp add: item_ok_def prepend_bit_def)
  ultimately show ?thesis by (simp add: item_ok_def)
qed

lemma mset_heap_syms_remove1:
  "x \<in> set heap \<Longrightarrow>
   mset (heap_syms heap) = mset (map fst (snd x)) + mset (heap_syms (remove1 x heap))"
  by (induction heap) (auto simp: heap_syms_def)

lemma heap_syms_push: "heap_syms (heappush heap item) = heap_syms heap @ map fst (snd item)"
  by (simp add: heap_syms_def heappush_def)

lemma heappop_nonempty: "heap \<noteq> [] \<Longrightarrow> \<exists>m rest. heappop heap = Inr (m, rest)"
  by (cases heap) (auto simp: heappop_def Let_def)

lemma distinct_mset_subset:
  assumes "mset xs \<subseteq># mset ys" and "distinct ys"
  shows "distinct xs"
proof -
  have "count (mset xs) a \<le> 1" for a
  proof -
    have "count (mset ys) a = (if a \<in> set ys then 1 else 0)"
      using assms(2) unfolding distinct_count_atmost_1 by blast
    then have "count (mset ys) a \<le> 1" by simp
    then show ?thesis using mset_subset_eq_count [OF assms(1), of a] by linarith
  qed
  then show ?thesis
    unfolding distinct_count_atmost_1 [of xs]
    by (metis count_mset_0_iff le_antisym less_one not_le_imp_less)
qed

lemma heap_inv_remove1:
  assumes "heap_inv heap" and "x \<in> set heap"
  shows "heap_inv (remove1 x heap)"
proof -
  have "mset (heap_syms (remove1 x heap)) \<subseteq># mset (heap_syms heap)"
    using mset_heap_syms_remove1 [OF assms(2)] by simp
  then have "distinct (heap_syms (remove1 x heap))"
    using assms(1) by (auto simp: heap_inv_def intro: distinct_mset_subset)
  moreover have "\<forall>item \<in> set (remove1 x heap). item_ok (snd item)"
    using assms(1) by (auto simp: heap_inv_def dest: notin_set_remove1)
  ultimately show ?thesis by (simp add: heap_inv_def)
qed

lemma merge_step:
  assumes inv: "heap_inv heap"
    and lo: "heappop heap = Inr (lo, heap1)"
    and hi: "heappop heap1 = Inr (hi, heap2)"
  shows "heap_inv (heappush heap2
           (fst lo + fst hi, prepend_bit (CHR ''0'') (snd lo) @ prepend_bit (CHR ''1'') (snd hi)))"
    and "mset (heap_syms (heappush heap2
           (fst lo + fst hi, prepend_bit (CHR ''0'') (snd lo) @ prepend_bit (CHR ''1'') (snd hi))))
         = mset (heap_syms heap)"
    and "Suc (length (heappush heap2
           (fst lo + fst hi, prepend_bit (CHR ''0'') (snd lo) @ prepend_bit (CHR ''1'') (snd hi))))
         = length heap"
proof -
  let ?new = "heappush heap2
           (fst lo + fst hi, prepend_bit (CHR ''0'') (snd lo) @ prepend_bit (CHR ''1'') (snd hi))"
  have lo_mem: "lo \<in> set heap" and h1: "heap1 = remove1 lo heap"
    using heappop_mem [OF lo] by simp_all
  have hi_mem: "hi \<in> set heap1" and h2: "heap2 = remove1 hi heap1"
    using heappop_mem [OF hi] by simp_all
  have inv1: "heap_inv heap1" unfolding h1 by (rule heap_inv_remove1 [OF inv lo_mem])
  have inv2: "heap_inv heap2" unfolding h2 by (rule heap_inv_remove1 [OF inv1 hi_mem])
  have ok_lo: "item_ok (snd lo)" using inv lo_mem by (simp add: heap_inv_def)
  have ok_hi: "item_ok (snd hi)" using inv1 hi_mem by (simp add: heap_inv_def)
  have m: "mset (heap_syms heap)
           = mset (map fst (snd lo)) + (mset (map fst (snd hi)) + mset (heap_syms heap2))"
    using mset_heap_syms_remove1 [OF lo_mem] mset_heap_syms_remove1 [OF hi_mem]
    by (simp add: h1 h2)
  show ms: "mset (heap_syms ?new) = mset (heap_syms heap)"
    by (simp add: heap_syms_push map_fst_prepend_bit m)
  have "distinct (heap_syms ?new)"
    using inv mset_eq_imp_distinct_iff [OF ms] by (simp add: heap_inv_def)
  moreover have "\<forall>item \<in> set ?new. item_ok (snd item)"
    using inv2 item_ok_merge [OF ok_lo ok_hi] by (auto simp: heappush_def heap_inv_def)
  ultimately show "heap_inv ?new" by (simp add: heap_inv_def)
  show "Suc (length ?new) = length heap"
    using heappop_shorter [OF lo] heappop_shorter [OF hi] by (simp add: heappush_def)
qed

lemma merge_loop_result:
  "heap_inv heap \<Longrightarrow> heap \<noteq> [] \<Longrightarrow>
   \<exists>item. merge_loop heap = Inr [item] \<and> item_ok (snd item)
        \<and> mset (map fst (snd item)) = mset (heap_syms heap)"
proof (induction "length heap" arbitrary: heap rule: less_induct)
  case less
  show ?case
  proof (cases "length heap > 1")
    case False
    then obtain item where h: "heap = [item]"
      using less.prems(2) by (cases heap) auto
    have "merge_loop heap = Inr [item]"
      by (subst merge_loop.simps) (simp add: h)
    then show ?thesis using less.prems(1) by (simp add: h heap_inv_def heap_syms_def)
  next
    case True
    from less.prems(2) obtain lo heap1 where lo: "heappop heap = Inr (lo, heap1)"
      using heappop_nonempty by blast
    have "heap1 \<noteq> []" using heappop_shorter [OF lo] True by auto
    then obtain hi heap2 where hi: "heappop heap1 = Inr (hi, heap2)"
      using heappop_nonempty by blast
    define new where "new = heappush heap2
           (fst lo + fst hi, prepend_bit (CHR ''0'') (snd lo) @ prepend_bit (CHR ''1'') (snd hi))"
    note st = merge_step [OF less.prems(1) lo hi, folded new_def]
    have ne: "new \<noteq> []" by (simp add: new_def heappush_def)
    have "length new < length heap" using st(3) by simp
    from less.hyps [OF this st(1) ne] obtain item where
      it: "merge_loop new = Inr [item]" "item_ok (snd item)"
          "mset (map fst (snd item)) = mset (heap_syms new)"
      by blast
    have "merge_loop heap = merge_loop new"
      using True by (subst merge_loop.simps) (simp add: lo hi new_def)
    then show ?thesis using it st(2) by simp
  qed
qed

lemma count_byte_keys:
  "fst ` set (count_byte freq b) = insert b (fst ` set freq)"
  by (simp add: count_byte_def dom_update)

lemma count_byte_distinct:
  "distinct (map fst freq) \<Longrightarrow> distinct (map fst (count_byte freq b))"
  by (simp add: count_byte_def distinct_update)

lemma foldl_count_byte:
  "distinct (map fst acc) \<Longrightarrow>
   distinct (map fst (foldl count_byte acc data))
   \<and> fst ` set (foldl count_byte acc data) = fst ` set acc \<union> set data"
proof (induction data arbitrary: acc)
  case Nil
  then show ?case by simp
next
  case (Cons b data)
  from Cons.IH [OF count_byte_distinct [OF Cons.prems], of b]
  show ?case by (auto simp: count_byte_keys)
qed

lemma build_frequency_table_keys:
  "distinct (map fst (build_frequency_table data))"
  "fst ` set (build_frequency_table data) = set data"
  using foldl_count_byte [of "[]" data] by (simp_all add: build_frequency_table_def)

lemma distinct_bytes_length: "distinct (xs :: byte list) \<Longrightarrow> length xs \<le> 256"
proof -
  assume "distinct xs"
  then have "length xs = card (set xs)" by (simp add: distinct_card)
  also have "\<dots> \<le> card (UNIV :: byte set)" by (rule card_mono) simp_all
  also have "\<dots> = 256" by (simp add: card_word)
  finally show ?thesis .
qed

lemma build_huffman_codes_distinct:
  "distinct (map fst (snd tree)) \<Longrightarrow> build_huffman_codes tree = snd tree"
  using foldl_update_distinct [of "[]" "snd tree"] by (simp add: build_huffman_codes_def)

text \<open>The initial heap of \<open>build_huffman_tree\<close>.\<close>

lemma initial_heap:
  assumes "distinct (map fst freq)"
  shows "heap_inv (map (\<lambda>(symbol, weight). (weight, [(symbol, [])])) freq)"
    and "heap_syms (map (\<lambda>(symbol, weight). (weight, [(symbol, [])])) freq) = map fst freq"
proof -
  show s: "heap_syms (map (\<lambda>(symbol, weight). (weight, [(symbol, [])])) freq) = map fst freq"
    by (induction freq) (auto simp: heap_syms_def)
  have "item_ok (snd item)"
    if "item \<in> set (map (\<lambda>(symbol, weight). (weight, [(symbol, [])])) freq)" for item
    using that by (auto simp: item_ok_def prefix_free_def)
  then show "heap_inv (map (\<lambda>(symbol, weight). (weight, [(symbol, [])])) freq)"
    using assms by (simp add: heap_inv_def s)
qed

lemma item_ok_codes_nonempty:
  assumes "item_ok ps" and "distinct (map fst ps)" and "2 \<le> length ps" and "p \<in> set ps"
  shows "snd p \<noteq> []"
proof
  assume e: "snd p = []"
  have "\<exists>q \<in> set ps. q \<noteq> p"
  proof (rule ccontr)
    assume "\<not> (\<exists>q \<in> set ps. q \<noteq> p)"
    then have "set ps \<subseteq> {p}" by auto
    moreover have "distinct ps" using assms(2) by (rule distinct_map [THEN iffD1, THEN conjunct1])
    ultimately have "length ps \<le> 1"
      by (metis card_mono card.empty card_insert_disjoint distinct_card empty_iff finite.emptyI
          finite.insertI One_nat_def)
    then show False using assms(3) by simp
  qed
  then obtain q where "q \<in> set ps" "q \<noteq> p" by blast
  then have "\<not> prefix (snd p) (snd q)"
    using assms(1) assms(4) by (auto simp: item_ok_def prefix_free_def)
  then show False by (simp add: e)
qed

text \<open>What a built tree satisfies; \<open>valid_table\<close> is the precondition of the
  serialization round trip.\<close>

lemma build_huffman_tree_result:
  assumes "data \<noteq> []"
  shows "\<exists>tree. build_huffman_tree (build_frequency_table data) = Inr tree
           \<and> build_huffman_codes tree = snd tree
           \<and> distinct (map fst (snd tree))
           \<and> fst ` set (snd tree) = set data
           \<and> prefix_free (snd tree)
           \<and> valid_table (snd tree)
           \<and> (length (build_frequency_table data) = 1 \<longrightarrow>
                 snd tree = [(fst (hd (build_frequency_table data)), ''0'')])"
proof -
  define freq where "freq = build_frequency_table data"
  define heap :: "heap_item list"
    where "heap = map (\<lambda>(symbol, weight). (weight, [(symbol, [])])) freq"
  have d: "distinct (map fst freq)" and k: "fst ` set freq = set data"
    using build_frequency_table_keys [of data] by (simp_all add: freq_def)
  have ne: "freq \<noteq> []" using k assms by auto
  have n256: "length freq \<le> 256"
    using distinct_bytes_length [OF d] by simp
  show ?thesis
  proof (cases "length freq = 1")
    case True
    then obtain s w where f: "freq = [(s, w)]"
      by (cases freq) (auto simp: length_Suc_conv)
    have "build_huffman_tree freq = Inr (1, [(s, ''0'')])"
      by (simp add: build_huffman_tree_def f index_def)
    moreover have "set data = {s}" using k f by simp
    ultimately show ?thesis
      unfolding freq_def [symmetric]
      by (simp add: f build_huffman_codes_distinct prefix_free_def valid_table_def)
  next
    case False
    then have two: "2 \<le> length freq" using ne by (cases freq) (auto simp: Suc_le_eq)
    have inv: "heap_inv heap" and syms: "heap_syms heap = map fst freq"
      using initial_heap [OF d] by (simp_all add: heap_def)
    have hne: "heap \<noteq> []" using ne by (simp add: heap_def)
    from merge_loop_result [OF inv hne] obtain item where
      it: "merge_loop heap = Inr [item]" "item_ok (snd item)"
          "mset (map fst (snd item)) = mset (heap_syms heap)"
      by blast
    have lh: "length heap \<noteq> 1" using False by (simp add: heap_def)
    have bt: "build_huffman_tree freq = Inr item"
      unfolding build_huffman_tree_def heap_def [symmetric] Let_def
      using lh it(1) by (simp add: index_def)
    have ms: "mset (map fst (snd item)) = mset (map fst freq)" using it(3) syms by simp
    have di: "distinct (map fst (snd item))"
      using mset_eq_imp_distinct_iff [OF ms] d by simp
    have st: "fst ` set (snd item) = set data"
      using mset_eq_setD [OF ms] k by simp
    have ln: "length (snd item) = length freq"
      using mset_eq_length [OF ms] by simp
    have pf: "prefix_free (snd item)" using it(2) by (simp add: item_ok_def)
    have "snd p \<noteq> [] \<and> length (snd p) \<le> 255 \<and> set (snd p) \<subseteq> {CHR ''0'', CHR ''1''}"
      if "p \<in> set (snd item)" for p
    proof -
      have "snd p \<noteq> []"
        using item_ok_codes_nonempty [OF it(2) di _ that] two ln by simp
      moreover have "length (snd p) < length (snd item)" "set (snd p) \<subseteq> {CHR ''0'', CHR ''1''}"
        using it(2) that by (simp_all add: item_ok_def)
      ultimately show ?thesis using ln n256 by simp
    qed
    then have vt: "valid_table (snd item)"
      using di ln n256 by (simp add: valid_table_def)
    show ?thesis
      unfolding freq_def [symmetric]
      using bt di st pf vt False by (simp add: build_huffman_codes_distinct)
  qed
qed

text \<open>
  Claim C6.  For every non-empty buffer the tree is built without an exception, the
  code table gives every byte of the buffer a non-empty string of \<open>'0'\<close> and \<open>'1'\<close>,
  the code of one entry is never a prefix of the code of another entry, and a buffer
  with exactly one distinct byte value gets the table that maps it to \<open>"0"\<close>.
\<close>

theorem huffman_codes_prefix_free:
  assumes "data \<noteq> []"
  shows "\<exists>tree. build_huffman_tree (build_frequency_table data) = Inr tree
     \<and> (\<forall>b \<in> set data. \<exists>code. map_of (build_huffman_codes tree) b = Some code
            \<and> code \<noteq> [] \<and> set code \<subseteq> {CHR ''0'', CHR ''1''})
     \<and> (\<forall>p \<in> set (build_huffman_codes tree). \<forall>q \<in> set (build_huffman_codes tree).
            p \<noteq> q \<longrightarrow> \<not> prefix (snd p) (snd q))
     \<and> (\<forall>b. set data = {b} \<longrightarrow> build_huffman_codes tree = [(b, ''0'')])"
proof -
  from build_huffman_tree_result [OF assms] obtain tree where
    t: "build_huffman_tree (build_frequency_table data) = Inr tree"
       "build_huffman_codes tree = snd tree"
       "distinct (map fst (snd tree))"
       "fst ` set (snd tree) = set data"
       "prefix_free (snd tree)"
       "valid_table (snd tree)"
       "length (build_frequency_table data) = 1 \<longrightarrow>
          snd tree = [(fst (hd (build_frequency_table data)), ''0'')]"
    by blast
  have a: "\<exists>code. map_of (snd tree) b = Some code \<and> code \<noteq> [] \<and> set code \<subseteq> {CHR ''0'', CHR ''1''}"
    if "b \<in> set data" for b
  proof -
    from that t(4) obtain code where m: "(b, code) \<in> set (snd tree)" by force
    then have "map_of (snd tree) b = Some code" using t(3) by simp
    moreover have "code \<noteq> [] \<and> set code \<subseteq> {CHR ''0'', CHR ''1''}"
      using t(6) m by (force simp: valid_table_def)
    ultimately show ?thesis by simp
  qed
  have c: "snd tree = [(b, ''0'')]" if "set data = {b}" for b
  proof -
    define freq where "freq = build_frequency_table data"
    have d: "distinct (map fst freq)" and k: "fst ` set freq = {b}"
      using build_frequency_table_keys [of data] that by (simp_all add: freq_def)
    have "card (set (map fst freq)) = length (map fst freq)" using d by (rule distinct_card)
    moreover have "card (set (map fst freq)) = 1" using k by simp
    ultimately have l: "length freq = 1" by simp
    then obtain e where f: "freq = [e]" by (cases freq) auto
    then have "fst e = b" using k by simp
    then show ?thesis using t(7) l f by (simp add: freq_def [symmetric])
  qed
  show ?thesis
    using t(1) t(5) a c by (auto simp: t(2) prefix_free_def)
qed

theorem huffman_codes_prefix_free_witness:
  "build_huffman_tree (build_frequency_table [65, 65, 66]) = Inr (3, [(66, ''0''), (65, ''1'')])
   \<and> build_huffman_codes (3, [(66, ''0''), (65, ''1'')]) = [(66, ''0''), (65, ''1'')]
   \<and> map_of [(66 :: byte, ''0''), (65, ''1'')] 65 = Some ''1''
   \<and> \<not> prefix ''0'' ''1''"
proof -
  have n: "[65, 65, 66 :: byte] \<noteq> []" by simp
  have e1: "build_huffman_tree (build_frequency_table [65, 65, 66])
            = Inr (3, [(66, ''0''), (65, ''1'')])"
    by code_simp
  have e2: "build_huffman_codes (3, [(66, ''0''), (65, ''1'')]) = [(66, ''0''), (65, ''1'')]"
    by code_simp
  show ?thesis
    using huffman_codes_prefix_free [OF n] by (simp add: e1 e2)
qed

subsection \<open>compress_huffman\<close>

lemma int2_bits:
  assumes "s \<noteq> []" and "set s \<subseteq> {CHR ''0'', CHR ''1''}"
  shows "int2 s = Inr (bits_msb (map (\<lambda>c. c = CHR ''1'') s))"
proof -
  have "list_all (\<lambda>c. c = CHR ''0'' \<or> c = CHR ''1'') s"
    using assms(2) by (auto simp: list_all_iff)
  then show ?thesis using assms(1)
    by (simp add: int2_def bits_msb_def foldl_map)
qed

lemma padded_length:
  "(n + (if n mod 8 \<noteq> 0 then 8 - n mod 8 else 0)) mod 8 = (0::nat)"
  by (simp add: mod_simps) presburger

lemma efficient_binary_string_to_bytes_ok:
  assumes "set s \<subseteq> {CHR ''0'', CHR ''1''}"
  shows "\<exists>bs. efficient_binary_string_to_bytes s
           = Inr (bs, if length s mod 8 \<noteq> 0 then 8 - length s mod 8 else 0)"
proof -
  define padding where "padding = (if length s mod 8 \<noteq> 0 then 8 - length s mod 8 else 0)"
  define padded where "padded = s @ replicate padding (CHR ''0'')"
  have m: "length padded mod 8 = 0"
    using padded_length [of "length s"] by (simp add: padded_def padding_def)
  have cs: "set padded \<subseteq> {CHR ''0'', CHR ''1''}"
    using assms by (auto simp: padded_def)
  have "(case int2 (take 8 (drop i padded)) of Inl e \<Rightarrow> Inl e | Inr v \<Rightarrow> to_byte v)
        = Inr (of_nat (bits_msb (map (\<lambda>c. c = CHR ''1'') (take 8 (drop i padded)))))"
    if "i \<in> set (range8 (length padded))" for i
  proof -
    from that obtain k where k: "i = 8 * k" "k < (length padded + 7) div 8"
      by (auto simp: range8_def)
    have "8 * k + 8 \<le> length padded" using k(2) m by presburger
    then have l: "length (take 8 (drop i padded)) = 8" using k(1) by simp
    then have ne: "take 8 (drop i padded) \<noteq> []" by auto
    have sub: "set (take 8 (drop i padded)) \<subseteq> {CHR ''0'', CHR ''1''}"
      using cs by (meson set_take_subset set_drop_subset subset_trans)
    have "bits_msb (map (\<lambda>c. c = CHR ''1'') (take 8 (drop i padded))) < 256"
      using bits_msb_less [of "map (\<lambda>c. c = CHR ''1'') (take 8 (drop i padded))"] l by simp
    then show ?thesis by (simp add: int2_bits [OF ne sub] to_byte_def)
  qed
  then have "collect (map (\<lambda>i. case int2 (take 8 (drop i padded)) of Inl e \<Rightarrow> Inl e
                                 | Inr v \<Rightarrow> to_byte v) (range8 (length padded)))
        = Inr (map (\<lambda>i. of_nat (bits_msb (map (\<lambda>c. c = CHR ''1'') (take 8 (drop i padded)))))
                 (range8 (length padded)))"
    by (rule collect_map_Inr)
  then show ?thesis
    unfolding efficient_binary_string_to_bytes_def Let_def padding_def [symmetric]
      padded_def [symmetric]
    by simp
qed

lemma encode_symbols_ok:
  assumes "set data \<subseteq> fst ` set codes" and "distinct (map fst codes)"
    and "\<And>p. p \<in> set codes \<Longrightarrow> set (snd p) \<subseteq> {CHR ''0'', CHR ''1''}"
  shows "\<exists>encoded. encode_symbols codes data = Inr encoded
           \<and> set encoded \<subseteq> {CHR ''0'', CHR ''1''}"
proof -
  have 1: "(case map_of codes b of None \<Rightarrow> Inl KeyError | Some code \<Rightarrow> Inr code)
           = Inr (the (map_of codes b))" if "b \<in> set data" for b
  proof -
    from that assms(1) obtain code where "(b, code) \<in> set codes" by force
    then have "map_of codes b = Some code" using assms(2) by simp
    then show ?thesis by simp
  qed
  have "collect (map (\<lambda>b. case map_of codes b of None \<Rightarrow> Inl KeyError
                               | Some code \<Rightarrow> Inr code) data)
        = Inr (map (\<lambda>b. the (map_of codes b)) data)"
    by (rule collect_map_Inr) (rule 1)
  then have e: "encode_symbols codes data = Inr (concat (map (\<lambda>b. the (map_of codes b)) data))"
    by (simp add: encode_symbols_def)
  have "set (the (map_of codes b)) \<subseteq> {CHR ''0'', CHR ''1''}" if "b \<in> set data" for b
  proof -
    from that assms(1) obtain code where c: "(b, code) \<in> set codes" by force
    then have "map_of codes b = Some code" using assms(2) by simp
    then show ?thesis using assms(3) [OF c] by simp
  qed
  then have "set (concat (map (\<lambda>b. the (map_of codes b)) data)) \<subseteq> {CHR ''0'', CHR ''1''}"
    by auto
  then show ?thesis using e by simp
qed

lemma compress_huffman_result:
  assumes "100 \<le> length data"
  shows "\<exists>tree encoded compressed_bytes padding tree_bytes.
           build_huffman_tree (build_frequency_table data) = Inr tree
         \<and> encode_symbols (build_huffman_codes tree) data = Inr encoded
         \<and> efficient_binary_string_to_bytes encoded = Inr (compressed_bytes, padding)
         \<and> serialize_tree (build_huffman_codes tree) = Inr tree_bytes
         \<and> compress_huffman data =
             Inr (if length compressed_bytes + length tree_bytes + 10 < length data
                  then (compressed_bytes, Huffman_applied tree_bytes padding)
                  else (data, Huffman_raw))"
proof -
  have ne: "data \<noteq> []" using assms by auto
  from build_huffman_tree_result [OF ne] obtain tree where
    t: "build_huffman_tree (build_frequency_table data) = Inr tree"
       "build_huffman_codes tree = snd tree"
       "distinct (map fst (snd tree))"
       "fst ` set (snd tree) = set data"
       "valid_table (snd tree)"
    by blast
  have "\<exists>encoded. encode_symbols (snd tree) data = Inr encoded
           \<and> set encoded \<subseteq> {CHR ''0'', CHR ''1''}"
    by (rule encode_symbols_ok) (use t in \<open>auto simp: valid_table_def\<close>)
  then obtain encoded where
    e: "encode_symbols (snd tree) data = Inr encoded" "set encoded \<subseteq> {CHR ''0'', CHR ''1''}"
    by blast
  from efficient_binary_string_to_bytes_ok [OF e(2)] obtain compressed_bytes padding where
    b: "efficient_binary_string_to_bytes encoded = Inr (compressed_bytes, padding)"
    by blast
  have s: "serialize_tree (snd tree) = Inr (spec_serialize_table (snd tree))"
    by (rule serialize_tree_spec) (use t(5) in \<open>auto simp: valid_table_def\<close>)
  have "compress_huffman data =
             Inr (if length compressed_bytes + length (spec_serialize_table (snd tree)) + 10
                     < length data
                  then (compressed_bytes, Huffman_applied (spec_serialize_table (snd tree)) padding)
                  else (data, Huffman_raw))"
    using assms by (simp add: compress_huffman_def t(1) t(2) e(1) b s Let_def)
  then show ?thesis using t(1) t(2) e(1) b s by auto
qed

section \<open>The two stages: shrink or fall back\<close>

text \<open>
  Claim C8.  Whenever \<open>compress_lz77\<close> returns, it returns either its input with
  \<open>compressed: False\<close>, or, for an input of at least 50 bytes, the token stream of its
  loop with \<open>compressed: True\<close>, and then the stream is strictly shorter than the
  input.  With a window size that the variable-length encoding can carry (at most
  32767) it never raises, and the stream is returned exactly when the input has at
  least 50 bytes and the stream is strictly shorter than the input.
  \<open>compress_huffman\<close> never raises: below 100 bytes it returns its input with
  \<open>compressed: False\<close>; from 100 bytes on the tree, the encoding, the packing and the
  serialization of the table all succeed, and the result is the packed bytes with
  \<open>compressed: True\<close> exactly when the packed bytes plus the serialized table plus 10
  are strictly fewer than the input bytes, and otherwise the input itself with
  \<open>compressed: False\<close>.
\<close>

theorem stages_shrink_or_fallback:
  "(\<forall>out m. compress_lz77 data window_size lookahead_buffer_size = Inr (out, m) \<longrightarrow>
        (m = Lz77_raw \<and> out = data)
      \<or> (m = Lz77_applied window_size lookahead_buffer_size \<and> 50 \<le> length data
          \<and> compress_loop data window_size lookahead_buffer_size 0 [] = Inr out
          \<and> length out < length data))
   \<and> (window_size \<le> 32767 \<longrightarrow>
        (\<exists>tokens. compress_loop data window_size lookahead_buffer_size 0 [] = Inr tokens
            \<and> compress_lz77 data window_size lookahead_buffer_size =
                Inr (if 50 \<le> length data \<and> length tokens < length data
                     then (tokens, Lz77_applied window_size lookahead_buffer_size)
                     else (data, Lz77_raw))))
   \<and> (if length input < 100 then compress_huffman input = Inr (input, Huffman_raw)
      else (\<exists>tree encoded compressed_bytes padding tree_bytes.
              build_huffman_tree (build_frequency_table input) = Inr tree
            \<and> encode_symbols (build_huffman_codes tree) input = Inr encoded
            \<and> efficient_binary_string_to_bytes encoded = Inr (compressed_bytes, padding)
            \<and> serialize_tree (build_huffman_codes tree) = Inr tree_bytes
            \<and> compress_huffman input =
                Inr (if length compressed_bytes + length tree_bytes + 10 < length input
                     then (compressed_bytes, Huffman_applied tree_bytes padding)
                     else (input, Huffman_raw))))"
proof -
  have only: "(m = Lz77_raw \<and> out = data)
      \<or> (m = Lz77_applied window_size lookahead_buffer_size \<and> 50 \<le> length data
          \<and> compress_loop data window_size lookahead_buffer_size 0 [] = Inr out
          \<and> length out < length data)"
    if "compress_lz77 data window_size lookahead_buffer_size = Inr (out, m)" for out m
    using that by (auto simp: compress_lz77_def split: if_splits sum.splits)
  have lz: "\<exists>tokens. compress_loop data window_size lookahead_buffer_size 0 [] = Inr tokens
            \<and> compress_lz77 data window_size lookahead_buffer_size =
                Inr (if 50 \<le> length data \<and> length tokens < length data
                     then (tokens, Lz77_applied window_size lookahead_buffer_size)
                     else (data, Lz77_raw))"
    if "window_size \<le> 32767"
  proof -
    have w: "window_size < 32768" using that by simp
    have "compress_loop data window_size lookahead_buffer_size 0 [] =
            Inr (concat (map enc_token (lz_tokens data window_size lookahead_buffer_size 0)))"
      using compress_loop_tokens [OF w, of data lookahead_buffer_size 0 "[]"] by simp
    then show ?thesis by (simp add: compress_lz77_def)
  qed
  have hf: "if length input < 100 then compress_huffman input = Inr (input, Huffman_raw)
      else (\<exists>tree encoded compressed_bytes padding tree_bytes.
              build_huffman_tree (build_frequency_table input) = Inr tree
            \<and> encode_symbols (build_huffman_codes tree) input = Inr encoded
            \<and> efficient_binary_string_to_bytes encoded = Inr (compressed_bytes, padding)
            \<and> serialize_tree (build_huffman_codes tree) = Inr tree_bytes
            \<and> compress_huffman input =
                Inr (if length compressed_bytes + length tree_bytes + 10 < length input
                     then (compressed_bytes, Huffman_applied tree_bytes padding)
                     else (input, Huffman_raw)))"
  proof (cases "length input < 100")
    case True
    then show ?thesis by (simp add: compress_huffman_def)
  next
    case False
    then have "100 \<le> length input" by simp
    from compress_huffman_result [OF this] show ?thesis using False by simp
  qed
  show ?thesis using only lz hf by blast
qed

theorem stages_shrink_or_fallback_witness:
  "compress_lz77 (replicate 50 65) 4096 128
     = Inr ([0, 0, 65, 1, 1, 65, 3, 3, 65, 7, 7, 65, 15, 15, 65, 31, 19, 255],
            Lz77_applied 4096 128)
   \<and> compress_loop (replicate 50 65) 4096 128 0 []
     = Inr [0, 0, 65, 1, 1, 65, 3, 3, 65, 7, 7, 65, 15, 15, 65, 31, 19, 255]
   \<and> compress_huffman (replicate 10 65) = Inr (replicate 10 65, Huffman_raw)"
proof -
  have t: "compress_loop (replicate 50 65) 4096 128 0 []
           = Inr [0, 0, 65, 1, 1, 65, 3, 3, 65, 7, 7, 65, 15, 15, 65, 31, 19, 255]"
    by code_simp
  show ?thesis
    using stages_shrink_or_fallback [of "replicate 50 65" 4096 128 "replicate 10 65"]
    by (simp add: t)
qed

section \<open>The literal byte 0xFF\<close>

lemma enc_token_literal:
  "enc_token t = spec_varint (fst t) @ spec_varint (fst (snd t)) @ [literal_byte (snd (snd t))]"
  by (simp add: enc_token_def literal_byte_def case_prod_unfold)

lemma decompress_loop_tokens:
  assumes "\<And>t. t \<in> set ts \<Longrightarrow> fst t < 32768 \<and> fst (snd t) < 32768"
  shows "decompress_loop (pre @ concat (map enc_token ts)) (length pre) result
         = decode_tokens result ts"
  using assms
proof (induction ts arbitrary: pre result)
  case Nil
  then show ?case by (simp add: decompress_loop_done)
next
  case (Cons t ts)
  define data where "data = pre @ concat (map enc_token (t # ts))"
  define rest where "rest = concat (map enc_token ts)"
  define p where "p = length pre + length (spec_varint (fst t)) + length (spec_varint (fst (snd t)))"
  have b: "fst t < 32768" "fst (snd t) < 32768" using Cons.prems [of t] by simp_all
  have d1: "data = pre @ spec_varint (fst t) @ spec_varint (fst (snd t))
                    @ (literal_byte (snd (snd t)) # rest)"
    by (simp add: data_def rest_def enc_token_literal)
  have d2: "data = (pre @ enc_token t) @ concat (map enc_token ts)"
    by (simp add: data_def)
  have v: "variable_length_decode data (length pre) = Inr (fst t, fst (snd t), p)"
    unfolding d1 p_def by (rule variable_length_decode_spec [OF b])
  have lt: "length pre < length data" by (simp add: d1)
  have pl: "p < length data" by (simp add: d1 p_def)
  have nth: "data ! p = literal_byte (snd (snd t))"
    by (simp add: d1 p_def nth_append)
  have np: "p + 1 = length (pre @ enc_token t)"
    by (simp add: p_def enc_token_literal)
  have IH: "decompress_loop data (length (pre @ enc_token t)) r = decode_tokens r ts" for r
    unfolding d2 by (rule Cons.IH) (simp add: Cons.prems)
  have IH': "decompress_loop data (Suc p) r = decode_tokens r ts" for r
    using IH [of r] np by simp
  show ?case
    unfolding data_def [symmetric] decompress_loop_step [OF lt] v
    by (simp add: pl nth IH' split: sum.splits)
qed

lemma copy_back_length:
  "copy_back result offset n = Inr copied \<Longrightarrow> length copied = length result + n"
  by (induction n arbitrary: result) (auto split: sum.splits)

lemma append_literal_Some:
  "append_literal result (Some c) = Inr (if c = 0xFF then result else result @ [c])"
  by (simp add: append_literal_def)

lemma decode_token_Some:
  "decode_token result offset n (Some c) = Inl e \<Longrightarrow> e = IndexError"
  "decode_token result offset n (Some c) = Inr r \<Longrightarrow>
     length r = length result + n + (if c = 0xFF then 0 else 1)"
  by (auto simp: decode_token_def append_literal_Some split: if_splits sum.splits
      dest: copy_back_error copy_back_length)

lemma decode_tokens_result:
  "decode_tokens result ts = Inl e \<Longrightarrow> e = IndexError"
  "decode_tokens result ts = Inr r \<Longrightarrow> length r = length result + sum_list (map emitted ts)"
proof (induction ts arbitrary: result)
  case Nil
  { case 1 then show ?case by simp }
  { case 2 then show ?case by simp }
next
  case (Cons t ts)
  { case 1 then show ?case
      using Cons.IH(1) decode_token_Some(1) by (auto split: sum.splits) }
  { case 2 then show ?case
      using Cons.IH(2) decode_token_Some(2) [of result "fst t" "fst (snd t)" "literal_byte (snd (snd t))"]
      by (auto simp: emitted_def split: sum.splits) }
qed

lemma lz_tokens_bounds:
  assumes "w < 32768"
  shows "t \<in> set (lz_tokens data w l pos) \<Longrightarrow> fst t < 32768 \<and> fst (snd t) < 32768"
proof (induction "length data - pos" arbitrary: pos rule: less_induct)
  case less
  show ?case
  proof (cases "pos < length data")
    case False
    then show ?thesis using less.prems by (subst (asm) lz_tokens.simps) simp
  next
    case True
    obtain offset len next_char where
      f: "find_longest_match data pos w l = (offset, len, next_char)"
      by (cases "find_longest_match data pos w l") auto
    have o: "offset < 32768" and n: "len < 32768"
      using find_longest_match_bounds [OF f] assms by simp_all
    have "lz_tokens data w l pos = (offset, len, next_char) # lz_tokens data w l (pos + len + 1)"
      using True by (subst lz_tokens.simps) (simp add: f)
    then consider "t = (offset, len, next_char)" | "t \<in> set (lz_tokens data w l (pos + len + 1))"
      using less.prems by auto
    then show ?thesis
    proof cases
      case 1
      then show ?thesis using o n by simp
    next
      case 2
      have "length data - (pos + len + 1) < length data - pos" using True by simp
      from less.hyps [OF this 2] show ?thesis .
    qed
  qed
qed

lemma lz_tokens_cover:
  "pos \<le> length data \<Longrightarrow>
   pos + sum_list (map covered (lz_tokens data w l pos)) = length data"
proof (induction "length data - pos" arbitrary: pos rule: less_induct)
  case less
  show ?case
  proof (cases "pos < length data")
    case False
    then have "lz_tokens data w l pos = []" by (subst lz_tokens.simps) simp
    then show ?thesis using False less.prems by simp
  next
    case True
    obtain offset len next_char where
      f: "find_longest_match data pos w l = (offset, len, next_char)"
      by (cases "find_longest_match data pos w l") auto
    note nc = find_longest_match_next_char [OF f True]
    have ts: "lz_tokens data w l pos
              = (offset, len, next_char) # lz_tokens data w l (pos + len + 1)"
      using True by (subst lz_tokens.simps) (simp add: f)
    show ?thesis
    proof (cases "pos + len < length data")
      case True
      then have le: "pos + len + 1 \<le> length data" by simp
      have "length data - (pos + len + 1) < length data - pos" using \<open>pos < length data\<close> by simp
      from less.hyps [OF this le]
      show ?thesis using ts nc(2) True by (simp add: covered_def)
    next
      case False
      then have e: "pos + len = length data" using nc(1) by simp
      have "lz_tokens data w l (pos + len + 1) = []"
        by (subst lz_tokens.simps) (simp add: e)
      then show ?thesis using ts nc(2) False e by (simp add: covered_def)
    qed
  qed
qed

lemma covered_emitted:
  "sum_list (map covered ts)
   = sum_list (map emitted ts) + length (filter (\<lambda>t. snd (snd t) = Some 0xFF) ts)"
proof (induction ts)
  case Nil
  then show ?case by simp
next
  case (Cons t ts)
  have "covered t = emitted t + (if snd (snd t) = Some 0xFF then 1 else 0)"
    by (cases "snd (snd t)") (auto simp: covered_def emitted_def literal_byte_def)
  then show ?case using Cons by simp
qed

text \<open>
  Claim C2, as stated, fails: for fifty bytes 0xFF the LZ77 stage is applied and five
  tokens carry a genuine literal 0xFF, but decompression returns no buffer at all.
  The first literal is dropped, and the back-copy of the second token then reads
  \<open>result[-1]\<close> of an empty buffer and raises IndexError.
\<close>

theorem lz77_ff_literal_lost_counterexample:
  "compress_lz77 (replicate 50 255) 4096 128
     = Inr ([0, 0, 255, 1, 1, 255, 3, 3, 255, 7, 7, 255, 15, 15, 255, 31, 19, 255],
            Lz77_applied 4096 128)
   \<and> lz_tokens (replicate 50 255) 4096 128 0
     = [(0, 0, Some 255), (1, 1, Some 255), (3, 3, Some 255), (7, 7, Some 255),
        (15, 15, Some 255), (31, 19, None)]
   \<and> ff_literals (replicate 50 255) 4096 128 = 5
   \<and> decompress_lz77 [0, 0, 255, 1, 1, 255, 3, 3, 255, 7, 7, 255, 15, 15, 255, 31, 19, 255]
        (Lz77_applied 4096 128) = Inl IndexError"
  by code_simp

text \<open>
  Claim C2, amended.  For every input on which the LZ77 stage is applied (with a window
  of at most 32767) and where some emitted token carries a genuine literal byte 0xFF,
  decompression never reproduces the input: the decoder drops each such literal, and
  either a later back-copy reaches before the start of the shortened output and
  raises IndexError, or the reconstructed buffer is shorter than the input by exactly
  the number of tokens with a genuine literal 0xFF.
\<close>

theorem lz77_ff_literal_lost:
  assumes "window_size \<le> 32767"
    and "compress_lz77 data window_size lookahead_buffer_size
         = Inr (tokens, Lz77_applied window_size lookahead_buffer_size)"
    and "0 < ff_literals data window_size lookahead_buffer_size"
  shows "decompress_lz77 tokens (Lz77_applied window_size lookahead_buffer_size) = Inl IndexError
       \<or> (\<exists>r. decompress_lz77 tokens (Lz77_applied window_size lookahead_buffer_size) = Inr r
              \<and> length r + ff_literals data window_size lookahead_buffer_size = length data
              \<and> r \<noteq> data)"
proof -
  define ts where "ts = lz_tokens data window_size lookahead_buffer_size 0"
  have w: "window_size < 32768" using assms(1) by simp
  have "compress_loop data window_size lookahead_buffer_size 0 [] = Inr (concat (map enc_token ts))"
    using compress_loop_tokens [OF w, of data lookahead_buffer_size 0 "[]"] by (simp add: ts_def)
  then have tk: "tokens = concat (map enc_token ts)"
    using assms(2) by (auto simp: compress_lz77_def split: if_splits)
  have "decompress_loop ([] @ concat (map enc_token ts)) (length ([] :: byte list)) []
        = decode_tokens [] ts"
    by (rule decompress_loop_tokens) (use lz_tokens_bounds [OF w] in \<open>auto simp: ts_def\<close>)
  then have d: "decompress_lz77 tokens (Lz77_applied window_size lookahead_buffer_size)
                = decode_tokens [] ts"
    by (simp add: decompress_lz77_def tk)
  have cov: "sum_list (map covered ts) = length data"
    using lz_tokens_cover [of 0 data window_size lookahead_buffer_size] by (simp add: ts_def)
  show ?thesis
  proof (cases "decode_tokens [] ts")
    case (Inl e)
    then show ?thesis using decode_tokens_result(1) [OF Inl] d by simp
  next
    case (Inr r)
    have "length r = sum_list (map emitted ts)"
      using decode_tokens_result(2) [OF Inr] by simp
    then have l: "length r + ff_literals data window_size lookahead_buffer_size = length data"
      using cov covered_emitted [of ts] by (simp add: ff_literals_def ts_def)
    then have "r \<noteq> data" using assms(3) by auto
    then show ?thesis using Inr d l by simp
  qed
qed

theorem lz77_ff_literal_lost_witness:
  "compress_lz77 (replicate 49 65 @ [255]) 4096 128
     = Inr ([0, 0, 65, 1, 1, 65, 3, 3, 65, 7, 7, 65, 15, 15, 65, 31, 18, 255],
            Lz77_applied 4096 128)
   \<and> ff_literals (replicate 49 65 @ [255]) 4096 128 = 1
   \<and> decompress_lz77 [0, 0, 65, 1, 1, 65, 3, 3, 65, 7, 7, 65, 15, 15, 65, 31, 18, 255]
        (Lz77_applied 4096 128) = Inr (replicate 49 65)"
proof -
  have w: "(4096 :: nat) \<le> 32767" by simp
  have c: "compress_lz77 (replicate 49 65 @ [255]) 4096 128
     = Inr ([0, 0, 65, 1, 1, 65, 3, 3, 65, 7, 7, 65, 15, 15, 65, 31, 18, 255],
            Lz77_applied 4096 128)"
    by code_simp
  have f: "ff_literals (replicate 49 65 @ [255]) 4096 128 = 1"
    by code_simp
  have p: "0 < ff_literals (replicate 49 65 @ [255]) 4096 128"
    by (simp add: f)
  have d: "decompress_lz77 [0, 0, 65, 1, 1, 65, 3, 3, 65, 7, 7, 65, 15, 15, 65, 31, 18, 255]
        (Lz77_applied 4096 128) = Inr (replicate 49 65)"
    by code_simp
  show ?thesis
    using lz77_ff_literal_lost [OF w c p] c f d by simp
qed

text \<open>
  Claim C1 fails on the code.  For 49 bytes 0x41 followed by one byte 0xFF the LZ77
  stage is applied and the Huffman stage is skipped (18 bytes); the last token carries
  the final byte 0xFF as its literal, the decoder takes it for the "no literal" mark,
  and \<open>combined_decompress\<close> returns the 49 bytes 0x41 only.
\<close>

theorem combined_roundtrip_loses_ff:
  "combined_compress (replicate 49 65 @ [255])
     = Inr ([0, 0, 65, 1, 1, 65, 3, 3, 65, 7, 7, 65, 15, 15, 65, 31, 18, 255],
            \<lparr>lz77 = Lz77_applied 4096 128, huffman = Huffman_raw\<rparr>)
   \<and> combined_decompress [0, 0, 65, 1, 1, 65, 3, 3, 65, 7, 7, 65, 15, 15, 65, 31, 18, 255]
        \<lparr>lz77 = Lz77_applied 4096 128, huffman = Huffman_raw\<rparr>
     = Inr (replicate 49 65)"
proof -
  have c: "compress_lz77 (replicate 49 65 @ [255]) 4096 128
     = Inr ([0, 0, 65, 1, 1, 65, 3, 3, 65, 7, 7, 65, 15, 15, 65, 31, 18, 255],
            Lz77_applied 4096 128)"
    by code_simp
  have d: "decompress_lz77 [0, 0, 65, 1, 1, 65, 3, 3, 65, 7, 7, 65, 15, 15, 65, 31, 18, 255]
        (Lz77_applied 4096 128) = Inr (replicate 49 65)"
    by code_simp
  show ?thesis
    by (simp add: combined_compress_def combined_decompress_def c d compress_huffman_def
        decompress_huffman_def)
qed

section \<open>Properties of helper.py\<close>

lemma unpack_I_take:
  "unpack_I (take 4 g) = (if 4 \<le> length g then Inr (from_bytes_le (take 4 g)) else Inl StructError)"
  by (auto simp: unpack_I_def min_def)

lemma unpack_B_take:
  "unpack_B (take 1 g) = (if 1 \<le> length g then Inr (from_bytes_le (take 1 g)) else Inl StructError)"
  by (auto simp: unpack_B_def min_def)

lemma unpack_II_take:
  "unpack_II (take 8 g) =
     (if 8 \<le> length g then Inr (from_bytes_le (take 4 g), from_bytes_le (take 4 (drop 4 g)))
      else Inl StructError)"
  by (auto simp: unpack_II_def min_def take_drop)

lemma load_body_eq:
  "load_body f =
     (if length f < 13 then Inl StructError
      else if length f < 17 + header_length_of f then Inl StructError
      else if length f < payload_start f then Inl StructError
      else Inr (take (payload_length_of f) (drop (payload_start f) f),
                 \<lparr>width = from_bytes_le (take 4 f),
                  height = from_bytes_le (take 4 (drop 4 f)),
                  channels = from_bytes_le (take 1 (drop 8 f)),
                  header_data = take (header_length_of f) (drop 13 f),
                  encoding_metadata =
                    take (metadata_length_of f) (drop (17 + header_length_of f) f)\<rparr>))"
proof -
  define hl where "hl = header_length_of f"
  define ml where "ml = metadata_length_of f"
  have hl: "from_bytes_le (take 4 (drop 9 f)) = hl"
    by (simp add: hl_def header_length_of_def)
  have ml: "from_bytes_le (take 4 (drop (13 + hl) f)) = ml"
    by (simp add: ml_def metadata_length_of_def hl_def)
  have ml': "from_bytes_le (take 4 (drop (hl + 13) f)) = ml"
    using ml by (simp add: add.commute)
  have ps: "payload_start f = 21 + hl + ml"
    by (simp add: payload_start_def hl_def ml_def)
  have pl: "payload_length_of f = from_bytes_le (take 4 (drop (17 + hl + ml) f))"
  proof -
    have "payload_start f - 4 = 17 + hl + ml" by (simp add: ps)
    then show ?thesis by (simp only: payload_length_of_def)
  qed
  have body: "load_body f =
     (if 8 \<le> length f then
        if 1 \<le> length f - 8 then
          if 4 \<le> length f - 9 then
            if 4 \<le> length f - (13 + hl) then
              if 4 \<le> length f - (17 + hl + ml) then
                Inr (take (payload_length_of f) (drop (21 + hl + ml) f),
                 \<lparr>width = from_bytes_le (take 4 f),
                  height = from_bytes_le (take 4 (drop 4 f)),
                  channels = from_bytes_le (take 1 (drop 8 f)),
                  header_data = take hl (drop 13 f),
                  encoding_metadata = take ml (drop (17 + hl) f)\<rparr>)
              else Inl StructError
            else Inl StructError
          else Inl StructError
        else Inl StructError
      else Inl StructError)"
    unfolding load_body_def file_read_def Let_def prod.case unpack_I_take unpack_B_take
      unpack_II_take
    by (simp add: hl ml' pl add.commute add.left_commute)
  consider (a) "length f < 13" | (b) "13 \<le> length f" "length f < 17 + hl"
    | (c) "17 + hl \<le> length f" "length f < 21 + hl + ml" | (d) "21 + hl + ml \<le> length f"
    by linarith
  then show ?thesis
  proof cases
    case a
    then show ?thesis unfolding body by simp
  next
    case b
    then show ?thesis unfolding body by (simp add: hl_def)
  next
    case c
    then show ?thesis unfolding body ps by (simp add: hl_def)
  next
    case d
    then have "8 \<le> length f" "1 \<le> length f - 8" "4 \<le> length f - 9"
      "4 \<le> length f - (13 + hl)" "4 \<le> length f - (17 + hl + ml)"
      "\<not> length f < 21 + hl + ml"
      by linarith+
    then show ?thesis unfolding body ps by (simp add: hl_def ml_def)
  qed
qed

text \<open>
  Claim C3, as stated, fails: in this stream the payload's length prefix is 5 and only
  2 bytes follow it, and the reader returns a record whose payload is those 2 bytes.
\<close>

theorem load_compressed_file_short_payload_counterexample:
  "payload_length_of [1,0,0,0, 2,0,0,0, 3, 1,0,0,0, 9, 0,0,0,0, 5,0,0,0, 7,8] = 5
   \<and> load_compressed_file [1,0,0,0, 2,0,0,0, 3, 1,0,0,0, 9, 0,0,0,0, 5,0,0,0, 7,8]
       = Some ([7, 8], \<lparr>width = 1, height = 2, channels = 3, header_data = [9],
                         encoding_metadata = []\<rparr>)"
  by (simp add: payload_length_of_def payload_start_def metadata_length_of_def
      header_length_of_def load_compressed_file_def load_body_def file_read_def
      unpack_II_def unpack_I_def unpack_B_def from_bytes_le_def)

text \<open>
  Claim C3, amended.  \<open>load_compressed_file\<close> fails, with the untyped result
  \<open>(None, None)\<close>, exactly when the stream ends before the payload's length prefix is
  complete; this covers a stream that ends inside a fixed-size field and a header or
  metadata blob shorter than its length prefix.  Otherwise it returns the record, with
  the header and metadata blobs at their declared lengths and as payload the next
  \<open>payload_length\<close> bytes or, when fewer remain, all the bytes that are left.  Every
  read is a bounded \<open>f.read\<close>, so nothing is read out of bounds.
\<close>

theorem load_compressed_file_result:
  "load_compressed_file f =
     (if length f < payload_start f then None
      else Some (take (payload_length_of f) (drop (payload_start f) f),
                 \<lparr>width = from_bytes_le (take 4 f),
                  height = from_bytes_le (take 4 (drop 4 f)),
                  channels = from_bytes_le (take 1 (drop 8 f)),
                  header_data = take (header_length_of f) (drop 13 f),
                  encoding_metadata =
                    take (metadata_length_of f) (drop (17 + header_length_of f) f)\<rparr>))"
  by (simp add: load_compressed_file_def load_body_eq payload_start_def)

end
